theory Spec2Isabelle
  imports Main "HOL-Library.Word" "HOL-Library.AList"
begin

unbundle bit_operations_syntax

section \<open>The Queue (src/util/Queue.mjs)\<close>

text \<open>
  The class has two fields: the list of pending items and the optional override tag.
  A tag argument that is left out is \<open>undefined\<close>, modelled as \<open>None\<close>; tags are
  strings.  The items are objects, so the test \<open>!item\<close> holds for \<open>undefined\<close> only,
  that is when the list is empty.  An emitted "execute" signal carries the current
  item and the previous one (\<open>undefined\<close> when \<open>first\<close> is set or the list was empty).
\<close>

record 'a queue_state =
  queue :: "'a list"
  override :: "string option"

text \<open>JavaScript truthiness of an optional string: \<open>undefined\<close> and \<open>""\<close> are falsy.\<close>

definition truthy :: "string option \<Rightarrow> bool" where
  "truthy t = (case t of None \<Rightarrow> False | Some s \<Rightarrow> s \<noteq> [])"

text \<open>The guard \<open>this.override && override !== this.override\<close> that opens all three methods.\<close>

definition gate_closed :: "'a queue_state \<Rightarrow> string option \<Rightarrow> bool" where
  "gate_closed q tag = (truthy (override q) \<and> tag \<noteq> override q)"

definition execute ::
  "bool \<Rightarrow> string option \<Rightarrow> 'a queue_state \<Rightarrow> 'a queue_state \<times> ('a \<times> 'a option) list" where
  "execute first tag q =
     (if gate_closed q tag then (q, [])
      else
        let prevItem = (if first then None else (case queue q of [] \<Rightarrow> None | p # _ \<Rightarrow> Some p));
            q1 = (if first then q else q\<lparr>queue := drop 1 (queue q)\<rparr>)
        in (case queue q1 of
              [] \<Rightarrow> (q1, [])
            | item # _ \<Rightarrow> (q1, [(item, prevItem)])))"

definition item ::
  "'a \<Rightarrow> string option \<Rightarrow> 'a queue_state \<Rightarrow> 'a queue_state \<times> ('a \<times> 'a option) list" where
  "item x tag q =
     (if gate_closed q tag then (q, [])
      else
        let q1 = q\<lparr>queue := queue q @ [x]\<rparr>
        in if length (queue q1) = 1 then execute True tag q1 else (q1, []))"

definition bulkItems ::
  "'a list \<Rightarrow> string option \<Rightarrow> 'a queue_state \<Rightarrow> 'a queue_state \<times> ('a \<times> 'a option) list" where
  "bulkItems xs tag q =
     (if gate_closed q tag then (q, [])
      else
        let ex = (length (queue q) = 0);
            q1 = q\<lparr>queue := queue q @ xs\<rparr>
        in if ex then execute True tag q1 else (q1, []))"

section \<open>Concurrency groups and shard partitioning (src/sharding/Admiral.mjs)\<close>

text \<open>
  \<open>chunkConcurrencyGroups\<close> walks the cluster IDs \<open>0 .. clusterCount - 1\<close> with a
  running group number and records \<open>clusterID \<mapsto> group\<close> in a \<open>Map\<close>.  The map is
  kept as an association list in insertion order; \<open>Map.get\<close> is \<open>map_of\<close>.
  \<open>maxConcurrency\<close> is a JavaScript number, here an \<open>int\<close>.
\<close>

fun ccg_loop :: "int \<Rightarrow> nat list \<Rightarrow> int \<Rightarrow> (nat \<times> int) list \<Rightarrow> (nat \<times> int) list" where
  "ccg_loop maxConcurrency [] currentGroup clusterGroupMap = clusterGroupMap"
| "ccg_loop maxConcurrency (i # rest) currentGroup clusterGroupMap =
     (let currentGroup1 =
            (if int i - currentGroup * maxConcurrency = maxConcurrency
             then currentGroup + 1 else currentGroup)
      in ccg_loop maxConcurrency rest currentGroup1 (clusterGroupMap @ [(i, currentGroup1)]))"

definition chunkConcurrencyGroups :: "int \<Rightarrow> nat \<Rightarrow> (nat \<times> int) list" where
  "chunkConcurrencyGroups maxConcurrency clusterCount =
     ccg_loop maxConcurrency [0 ..< clusterCount] 0 []"

text \<open>
  The test of the "execute" handler, \<open>(currentClusterID & this.maxConcurrency) === 0\<close>:
  the operator \<open>&\<close> works on the operands converted to 32-bit integers.
\<close>

definition group_start_bitwise :: "int \<Rightarrow> int \<Rightarrow> bool" where
  "group_start_bitwise currentClusterID maxConcurrency =
     (((word_of_int currentClusterID :: 32 word) AND word_of_int maxConcurrency) = 0)"

text \<open>
  \<open>chunk(shards, clusters)\<close>.  \<open>shards.slice(i, j)\<close> is \<open>take (j - i) (drop i shards)\<close>
  for \<open>i \<le> j\<close>.  \<open>Math.ceil(a / b)\<close> on a non-negative integer \<open>a\<close> and a positive
  integer \<open>b\<close> is \<open>- (- a div b)\<close> (the lengths of arrays are below \<open>2^32\<close>, where the
  floating-point quotient is exact enough for the ceiling).

  Both loops are modelled with the result \<open>None\<close> where the JavaScript loop would not
  return: a chunk size of \<open>0\<close> with shards left over, and a negative divisor in the
  second loop (the size is then not positive and \<open>i\<close> never grows).  With the divisor
  \<open>0\<close> the quotient is \<open>Infinity\<close>: the slice takes all that is left and the loop
  ends.
\<close>

definition slice :: "'a list \<Rightarrow> nat \<Rightarrow> nat \<Rightarrow> 'a list" where
  "slice xs i j = take (j - i) (drop i xs)"

definition ceil_div :: "int \<Rightarrow> int \<Rightarrow> int" where
  "ceil_div a b = - ((- a) div b)"

function chunk_even :: "'a list \<Rightarrow> nat \<Rightarrow> nat \<Rightarrow> 'a list list option" where
  "chunk_even shards sz i =
     (if i < length shards then
        (if sz = 0 then None
         else map_option (\<lambda>r. slice shards i (i + sz) # r) (chunk_even shards sz (i + sz)))
      else Some [])"
  by pat_completeness auto
termination
  by (relation "measure (\<lambda>(shards, sz, i). length shards - i)") auto

function chunk_uneven :: "'a list \<Rightarrow> int \<Rightarrow> nat \<Rightarrow> 'a list list option" where
  "chunk_uneven shards clusters i =
     (if i < length shards then
        (if 0 < clusters then
           (let sz = nat (ceil_div (int (length shards - i)) clusters)
            in map_option (\<lambda>r. slice shards i (i + sz) # r)
                 (chunk_uneven shards (clusters - 1) (i + sz)))
         else if clusters = 0 then Some [drop i shards]
         else None)
      else Some [])"
  by pat_completeness auto
termination
proof (relation "measure (\<lambda>(shards, clusters, i). length shards - i)")
  show "wf (measure (\<lambda>(shards :: 'a list, clusters :: int, i). length shards - i))"
    by simp
next
  fix shards :: "'a list" and clusters :: int and i :: nat and sz :: nat
  assume lt: "i < length shards" and pos: "0 < clusters"
    and szdef: "sz = nat (ceil_div (int (length shards - i)) clusters)"
  have "0 < - ((- int (length shards - i)) div clusters)"
    using lt pos by (simp add: div_neg_pos_less0)
  then have "0 < sz"
    by (simp add: szdef ceil_div_def)
  then show "((shards, clusters - 1, i + sz), (shards, clusters, i))
      \<in> measure (\<lambda>(shards, clusters, i). length shards - i)"
    using lt by simp
qed

declare chunk_even.simps [simp del] chunk_uneven.simps [simp del]

definition chunk :: "'a list \<Rightarrow> int \<Rightarrow> 'a list list option" where
  "chunk shards clusters =
     (if clusters < 2 then Some [shards]
      else if int (length shards) mod clusters = 0
        then chunk_even shards (nat (int (length shards) div clusters)) 0
        else chunk_uneven shards clusters 0)"

text \<open>The ceiling of a quotient of natural numbers, used to state what \<open>chunk\<close> does.\<close>

definition ceil_nat :: "nat \<Rightarrow> nat \<Rightarrow> nat" where
  "ceil_nat n c = (if n mod c = 0 then n div c else n div c + 1)"


section \<open>Serialization helpers (src/util/Serialization.mjs)\<close>

text \<open>
  JavaScript values as far as the helpers can tell them apart.  A number is kept as a
  value of the type parameter \<open>'n\<close> (a finite number: the helpers never look into it).
  An object is the list of its own enumerable properties in order.  An instance of
  \<open>Error\<close> carries its own enumerable properties (such as \<open>code\<close>) and, second, the
  properties that can be read from it without being enumerable (\<open>message\<close>, \<open>stack\<close>,
  the inherited \<open>name\<close>).  \<open>JHole\<close> stands in an array at an index the array does not
  have (a hole, as in \<open>[1, , 3]\<close>): it is no value, reading the index gives \<open>undefined\<close>,
  but the array has no own property there; \<open>JUndefined\<close> in an array is an element that
  is there and is \<open>undefined\<close>.
\<close>

datatype 'n jsval =
    JUndefined
  | JHole
  | JNull
  | JBool bool
  | JNum 'n
  | JStr string
  | JBigInt int
  | JArr "'n jsval list"
  | JObj "(string \<times> 'n jsval) list"
  | JError "(string \<times> 'n jsval) list" "(string \<times> 'n jsval) list"

text \<open>What a JSON text denotes.\<close>

datatype 'n json =
    Jnull
  | Jbool bool
  | Jnum 'n
  | Jstr string
  | Jarr "'n json list"
  | Jobj "(string \<times> 'n json) list"

subsection \<open>The built-in conversions between bigints and strings\<close>

text \<open>
  The template literal \<open>`BIGINT::${value}`\<close> writes a bigint in decimal, with a minus
  sign when it is negative.  \<open>BigInt(string)\<close> strips white space (here the ASCII white
  space), reads the empty string as \<open>0\<close>, a decimal literal with an optional sign, or a
  literal with the prefix \<open>0x\<close>, \<open>0o\<close> or \<open>0b\<close>, and throws a \<open>SyntaxError\<close> on
  anything else: the result \<open>None\<close>.
\<close>

definition digit_char :: "nat \<Rightarrow> char" where
  "digit_char d = char_of (48 + d)"

function digits10 :: "nat \<Rightarrow> string" where
  "digits10 n = (if n < 10 then [digit_char n] else digits10 (n div 10) @ [digit_char (n mod 10)])"
  by pat_completeness auto
termination
  by (relation "measure id") auto

declare digits10.simps [simp del]

definition bigint_to_string :: "int \<Rightarrow> string" where
  "bigint_to_string n = (if n < 0 then CHR ''-'' # digits10 (nat (- n)) else digits10 (nat n))"

definition digit_val :: "char \<Rightarrow> nat option" where
  "digit_val c =
     (let k = (of_char c :: nat)
      in if 48 \<le> k \<and> k \<le> 57 then Some (k - 48)
         else if 97 \<le> k \<and> k \<le> 102 then Some (k - 87)
         else if 65 \<le> k \<and> k \<le> 70 then Some (k - 55)
         else None)"

fun parse_digits :: "nat \<Rightarrow> nat \<Rightarrow> string \<Rightarrow> nat option" where
  "parse_digits base acc [] = Some acc"
| "parse_digits base acc (c # cs) =
     (case digit_val c of
        None \<Rightarrow> None
      | Some d \<Rightarrow> if d < base then parse_digits base (acc * base + d) cs else None)"

definition parse_literal :: "nat \<Rightarrow> string \<Rightarrow> nat option" where
  "parse_literal base ds = (if ds = [] then None else parse_digits base 0 ds)"

definition is_ws :: "char \<Rightarrow> bool" where
  "is_ws c = ((of_char c :: nat) \<in> {9, 10, 11, 12, 13, 32})"

definition trim :: "string \<Rightarrow> string" where
  "trim s = rev (dropWhile is_ws (rev (dropWhile is_ws s)))"

definition BigInt :: "string \<Rightarrow> int option" where
  "BigInt s =
     (let t = trim s
      in if t = [] then Some 0
         else if take 2 t \<in> {''0x'', ''0X''} then map_option int (parse_literal 16 (drop 2 t))
         else if take 2 t \<in> {''0o'', ''0O''} then map_option int (parse_literal 8 (drop 2 t))
         else if take 2 t \<in> {''0b'', ''0B''} then map_option int (parse_literal 2 (drop 2 t))
         else if take 1 t = ''-'' then map_option (\<lambda>n. - int n) (parse_literal 10 (drop 1 t))
         else if take 1 t = ''+'' then map_option int (parse_literal 10 (drop 1 t))
         else map_option int (parse_literal 10 t))"

subsection \<open>\<open>stringifyJSON\<close>\<close>

text \<open>
  \<open>JSON.stringify(data, replacer)\<close> calls the replacer on every value before it
  serialises it, the root included: a bigint and \<open>undefined\<close> become strings.  Every
  other value is returned as it is.  For an array \<open>JSON.stringify\<close> reads every index
  below the length, so at a hole the replacer is called on \<open>undefined\<close>.  The
  serialisation below therefore never meets a bigint, \<open>undefined\<close> or a hole; its three
  equations for them only make the function total.  An \<open>Error\<close> is serialised like any
  object, by its own enumerable properties.
\<close>

definition replacer :: "'n jsval \<Rightarrow> 'n jsval" where
  "replacer v =
     (case v of
        JBigInt n \<Rightarrow> JStr (''BIGINT::'' @ bigint_to_string n)
      | JUndefined \<Rightarrow> JStr ''UNDEFINED::''
      | JHole \<Rightarrow> JStr ''UNDEFINED::''
      | _ \<Rightarrow> v)"

lemma size_replacer [termination_simp]: "size (replacer v) = size v"
  by (cases v) (simp_all add: replacer_def)

fun serialize :: "'n jsval \<Rightarrow> 'n json" where
  "serialize JNull = Jnull"
| "serialize (JBool b) = Jbool b"
| "serialize (JNum n) = Jnum n"
| "serialize (JStr s) = Jstr s"
| "serialize (JArr xs) = Jarr (map (\<lambda>x. serialize (replacer x)) xs)"
| "serialize (JObj fs) = Jobj (map (\<lambda>(k, x). (k, serialize (replacer x))) fs)"
| "serialize (JError en hid) = Jobj (map (\<lambda>(k, x). (k, serialize (replacer x))) en)"
| "serialize JUndefined = Jnull"
| "serialize JHole = Jnull"
| "serialize (JBigInt n) = Jnull"

definition stringifyJSON :: "'n jsval \<Rightarrow> 'n json" where
  "stringifyJSON data = serialize (replacer data)"

subsection \<open>\<open>parseJSON\<close>\<close>

text \<open>
  \<open>JSON.parse(json, reviver)\<close> rebuilds the value bottom-up and calls the reviver on
  every value, the root last.  A property whose revived value is \<open>undefined\<close> is
  deleted from its object; an array element whose revived value is \<open>undefined\<close> is
  deleted too, which leaves a hole at its index and the length as it was.  The root
  is returned as the reviver gives it.  \<open>None\<close>: \<open>BigInt\<close> threw a \<open>SyntaxError\<close>, and
  so does \<open>parseJSON\<close>.
\<close>

definition startsWith :: "string \<Rightarrow> string \<Rightarrow> bool" where
  "startsWith s p = (take (length p) s = p)"

definition reviver :: "'n jsval \<Rightarrow> 'n jsval option" where
  "reviver v =
     (case v of
        JStr s \<Rightarrow>
          if startsWith s ''BIGINT::'' then map_option JBigInt (BigInt (drop 8 s))
          else if startsWith s ''UNDEFINED::'' then Some JUndefined
          else Some v
      | _ \<Rightarrow> Some v)"

fun internalize :: "'n json \<Rightarrow> 'n jsval option" where
  "internalize Jnull = reviver JNull"
| "internalize (Jbool b) = reviver (JBool b)"
| "internalize (Jnum n) = reviver (JNum n)"
| "internalize (Jstr s) = reviver (JStr s)"
| "internalize (Jarr xs) =
     (case those (map internalize xs) of
        None \<Rightarrow> None
      | Some vs \<Rightarrow> reviver (JArr (map (\<lambda>v. if v = JUndefined then JHole else v) vs)))"
| "internalize (Jobj fs) =
     (case those (map (\<lambda>(k, x). map_option (Pair k) (internalize x)) fs) of
        None \<Rightarrow> None
      | Some kvs \<Rightarrow> reviver (JObj (filter (\<lambda>(k, v). v \<noteq> JUndefined) kvs)))"

definition parseJSON :: "'n json \<Rightarrow> 'n jsval option" where
  "parseJSON json = internalize json"

subsection \<open>\<open>errorToJSON\<close> and \<open>reconstructError\<close>\<close>

text \<open>
  Reading a property: an own enumerable property first, then the others; a property
  that is not there reads as \<open>undefined\<close>, and so does any property of a primitive
  value (the helpers are never called on \<open>null\<close> or \<open>undefined\<close>).
\<close>

definition get_prop :: "'n jsval \<Rightarrow> string \<Rightarrow> 'n jsval" where
  "get_prop v k =
     (case v of
        JObj fs \<Rightarrow> (case map_of fs k of Some x \<Rightarrow> x | None \<Rightarrow> JUndefined)
      | JError en hid \<Rightarrow> (case map_of (en @ hid) k of Some x \<Rightarrow> x | None \<Rightarrow> JUndefined)
      | _ \<Rightarrow> JUndefined)"

definition errorToJSON :: "'n jsval \<Rightarrow> 'n jsval" where
  "errorToJSON error =
     JObj [(''code'', get_prop error ''code''),
           (''errno'', get_prop error ''errno''),
           (''message'', get_prop error ''message''),
           (''name'', get_prop error ''name''),
           (''path'', get_prop error ''path''),
           (''stack'', get_prop error ''stack''),
           (''syscall'', get_prop error ''syscall'')]"

definition instanceof_Error :: "'n jsval \<Rightarrow> bool" where
  "instanceof_Error v = (case v of JError en hid \<Rightarrow> True | _ \<Rightarrow> False)"

text \<open>
  \<open>reconstructError\<close> returns what is not an \<open>Error\<close> as it is.  For an \<open>Error\<close> it
  makes a new \<open>Error\<close> and assigns it the entries (the own enumerable properties) of
  the data; \<open>fresh\<close> stands for what can be read from \<open>new Error()\<close> before the
  assignments (its \<open>stack\<close>, the inherited \<open>message\<close> and \<open>name\<close>).
\<close>

definition reconstructError :: "(string \<times> 'n jsval) list \<Rightarrow> 'n jsval \<Rightarrow> 'n jsval" where
  "reconstructError fresh data =
     (if \<not> instanceof_Error data then data
      else (case data of JError en hid \<Rightarrow> JError en fresh | _ \<Rightarrow> data))"


definition is_digit :: "char \<Rightarrow> bool" where
  "is_digit c = (48 \<le> (of_char c :: nat) \<and> (of_char c :: nat) \<le> 57)"


subsection \<open>Payloads\<close>

text \<open>
  What the round trip is stated about.  A payload is \<open>clean\<close> when none of its strings
  starts with one of the two tags the helpers use and it holds no \<open>Error\<close> instance; a
  hole stands nowhere but in an array.  \<open>prune\<close> takes away the fields whose value is
  \<open>undefined\<close> and makes a hole of every array element that is \<open>undefined\<close>: such a
  field or index is absent after the round trip (and still reads as \<open>undefined\<close>).
  \<open>all_defined\<close>: no object of the payload has such a field and no array such an
  element.
\<close>

definition reserved :: "string \<Rightarrow> bool" where
  "reserved s = (startsWith s ''BIGINT::'' \<or> startsWith s ''UNDEFINED::'')"

fun clean :: "'n jsval \<Rightarrow> bool" where
  "clean (JStr s) = (\<not> reserved s)"
| "clean (JArr xs) = list_all (\<lambda>x. x = JHole \<or> clean x) xs"
| "clean (JObj fs) = list_all (\<lambda>(k, v). clean v) fs"
| "clean (JError en hid) = False"
| "clean JHole = False"
| "clean v = True"

fun prune :: "'n jsval \<Rightarrow> 'n jsval" where
  "prune (JArr xs) = JArr (map (\<lambda>x. if x = JUndefined then JHole else prune x) xs)"
| "prune (JObj fs) = JObj (filter (\<lambda>(k, v). v \<noteq> JUndefined) (map (\<lambda>(k, v). (k, prune v)) fs))"
| "prune v = v"

fun all_defined :: "'n jsval \<Rightarrow> bool" where
  "all_defined (JArr xs) = list_all (\<lambda>x. x \<noteq> JUndefined \<and> all_defined x) xs"
| "all_defined (JObj fs) = list_all (\<lambda>(k, v). v \<noteq> JUndefined \<and> all_defined v) fs"
| "all_defined v = True"

section \<open>The central request proxy\<close>

text \<open>
  The orchestrator's \<open>centralApiRequest\<close> (src/sharding/Admiral.mjs) performs the call on
  the shared client and sends \<open>{resolved, valueSerialized}\<close> back; the promise of the call
  is given here settled, as the value it resolved with or the value it rejected with.
  In the worker, \<open>CentralRequestHandler\<close> (src/util/CentralRequestHandler.mjs) parses
  \<open>valueSerialized\<close> and hands the message to the callback of the pending request, which
  settles the promise the caller holds.
\<close>

datatype 'n settled = Resolved "'n jsval" | Rejected "'n jsval"

text \<open>The truth value JavaScript gives a value in a condition.\<close>

definition js_truthy :: "('n :: zero) jsval \<Rightarrow> bool" where
  "js_truthy v =
     (case v of
        JUndefined \<Rightarrow> False
      | JHole \<Rightarrow> False
      | JNull \<Rightarrow> False
      | JBool b \<Rightarrow> b
      | JNum n \<Rightarrow> n \<noteq> 0
      | JStr s \<Rightarrow> s \<noteq> []
      | JBigInt n \<Rightarrow> n \<noteq> 0
      | _ \<Rightarrow> True)"

definition centralApiRequest :: "('n :: zero) settled \<Rightarrow> bool \<times> 'n json" where
  "centralApiRequest outcome =
     (case outcome of
        Resolved v \<Rightarrow> (True, stringifyJSON v)
      | Rejected error \<Rightarrow>
          (let msg =
                 (if instanceof_Error error
                  then JObj [(''convertedErrorObject'', JBool True), (''error'', errorToJSON error)]
                  else JObj [(''convertedErrorObject'', JBool False), (''error'', error)])
           in (False, stringifyJSON msg)))"

definition callback :: "(string \<times> 'n jsval) list \<Rightarrow> bool \<Rightarrow> ('n :: zero) jsval \<Rightarrow> 'n settled" where
  "callback fresh resolved v =
     (if resolved then Resolved v
      else if js_truthy (get_prop v ''convertedErrorObject'')
        then Rejected (reconstructError fresh (get_prop v ''error''))
        else Rejected (get_prop v ''error''))"

text \<open>
  The handler of \<open>centralApiResponse\<close>; \<open>None\<close> when \<open>parseJSON\<close> throws, and the callback
  is then not called.
\<close>

definition centralApiResponse ::
  "(string \<times> 'n jsval) list \<Rightarrow> bool \<times> ('n :: zero) json \<Rightarrow> 'n settled option" where
  "centralApiResponse fresh r =
     (case r of (resolved, valueSerialized) \<Rightarrow>
        map_option (callback fresh resolved) (parseJSON valueSerialized))"

definition central_call :: "(string \<times> 'n jsval) list \<Rightarrow> ('n :: zero) settled \<Rightarrow> 'n settled option" where
  "central_call fresh outcome = centralApiResponse fresh (centralApiRequest outcome)"

fun error_free :: "'n jsval \<Rightarrow> bool" where
  "error_free (JArr xs) = list_all error_free xs"
| "error_free (JObj fs) = list_all (\<lambda>(k, v). error_free v) fs"
| "error_free (JError en hid) = False"
| "error_free v = True"

section \<open>The orchestrator (src/sharding/Admiral.mjs)\<close>

text \<open>
  The state of the \<open>Admiral\<close> as far as the lifecycle of the workers goes.  A worker is
  known by its id (\<open>worker.id\<close>, a number that \<open>cluster.fork\<close> counts up).  Every \<open>Map\<close>
  of the class is an association list in insertion order: \<open>get\<close> is \<open>map_of\<close>, \<open>set\<close> is
  \<open>AList.update\<close> (in place for a key that is there, at the end for a new one),
  \<open>delete\<close> is \<open>AList.delete\<close>, and \<open>Collection.find\<close> is \<open>find\<close> on the values.

  The objects of the registries are kept by value.  The code changes one field of such
  an object in place, \<open>workerID\<close> in \<open>Object.assign(cluster, {workerID: ...})\<close>, and puts
  the object back under its own key in the same statement, so no second reference
  sees the change before it is overwritten.

  Left out: the log lines, the statistics, \<open>broadcast\<close>, the central store, and the
  operations \<open>reshard\<close> and \<open>totalShutdown\<close>.
\<close>

type_synonym wid = nat

datatype cluster = ClusterRec (clusterID: nat) (c_workerID: wid) (firstShardID: int) (lastShardID: int)

datatype service = ServiceRec (serviceName: string) (s_workerID: wid) (path: string)

datatype launching = LCluster cluster | LService service

text \<open>
  The messages the orchestrator sends.  Of a \<open>connect\<close> message only the identity is
  kept (\<open>clusterID\<close> or \<open>serviceName\<close>); the handlers read nothing else of it.  A fetch
  request is \<open>{op, id, UUID}\<close>, where \<open>UUID\<close> is the id of the requesting worker or
  \<open>"master"\<close>; a \<open>return\<close> is \<open>{op: "return", id, value}\<close> with \<open>None\<close> for \<open>null\<close>.
\<close>

datatype requester = Master | Worker wid

datatype message =
    Connect_cluster nat
  | Connect_service string
  | Shutdown
  | LoadCode
  | Fetch string string requester
  | Return string "string option"

datatype item_type = TCluster | TService | TN

datatype queue_item = QueueItem (itype: item_type) (i_workerID: wid) (msg: message)

text \<open>
  The closures the code stores, each with what it captures.  A \<open>SoftKillEntry\<close> holds
  the function \<open>fn\<close>: the two that \<open>shutdownWorker\<close> makes (for a cluster and for a
  service; \<open>True\<close> when \<open>customMaps\<close> was given) and the two that \<open>restartWorker\<close> makes
  for a soft restart, stored under the id of the new worker.  A callback is what
  \<open>shutdownWorker\<close> is given to call at the end of \<open>fn\<close>.
\<close>

datatype callback =
    NoCallback
  | RestartClusterCb cluster wid
  | RestartServiceCb service wid

datatype softkill =
    ShutdownClusterFn wid cluster bool callback
  | ShutdownServiceFn wid service bool callback
  | RestartClusterFn wid cluster wid
  | RestartServiceFn wid service wid

datatype launch_state = Launched | Waiting queue_item

datatype timer = KillTimer queue_item | ExecuteTimer | FetchTimer "string \<times> requester"

datatype event =
    ClusterReady cluster
  | ServiceReady service
  | Ready
  | ClusterShutdown cluster
  | ServiceShutdown service
  | ErrorLog string
  | Uncaught_TypeError

datatype effect = Send wid message | Kill wid | Emit event | Ipc_emit string "string option"

record fetch =
  f_UUID :: requester
  f_op :: string
  f_id :: string
  checked :: nat

record admiral =
  clusters :: "(nat \<times> cluster) list"
  services :: "(string \<times> service) list"
  launchingWorkers :: "(wid \<times> launching) list"
  softKills :: "(wid \<times> softkill) list"
  launchingManager :: "(wid \<times> launch_state) list"
  connectedClusterGroups :: "(int \<times> nat) list"
  clustersSequentialFailedRestarts :: "(nat \<times> nat) list"
  servicesSequentialFailedRestarts :: "(string \<times> nat) list"
  fetches :: "((string \<times> requester) \<times> fetch) list"
  q :: "queue_item queue_state"
  workers :: "wid list"
  nextWorkerID :: wid
  timers :: "timer list"
  out :: "effect list"
  maxConcurrency :: int
  clusterCount :: nat
  maxRestarts :: int
  startServicesTogether :: bool
  servicesToCreate :: "string list option"
  resharding :: bool

definition emit :: "effect \<Rightarrow> admiral \<Rightarrow> admiral" where
  "emit e st = st\<lparr>out := out st @ [e]\<rparr>"

text \<open>\<open>worker.send\<close>, \<open>worker.kill\<close> and \<open>this.emit\<close> leave a trace in \<open>out\<close>.\<close>

definition send :: "wid \<Rightarrow> message \<Rightarrow> admiral \<Rightarrow> admiral" where
  "send w m st = emit (Send w m) st"

definition kill :: "wid \<Rightarrow> admiral \<Rightarrow> admiral" where
  "kill w st = emit (Kill w) st"

text \<open>\<open>cluster.fork\<close>: a new worker under the next id.\<close>

definition fork :: "admiral \<Rightarrow> wid \<times> admiral" where
  "fork st = (nextWorkerID st,
      st\<lparr>workers := workers st @ [nextWorkerID st], nextWorkerID := Suc (nextWorkerID st)\<rparr>)"

definition find_cluster :: "wid \<Rightarrow> (nat \<times> cluster) list \<Rightarrow> cluster option" where
  "find_cluster w cs = find (\<lambda>c. c_workerID c = w) (map snd cs)"

definition find_service :: "wid \<Rightarrow> (string \<times> service) list \<Rightarrow> service option" where
  "find_service w ss = find (\<lambda>s. s_workerID s = w) (map snd ss)"

subsection \<open>The handler of the Queue's "execute" signal\<close>

definition msg_clusterID :: "message \<Rightarrow> nat option" where
  "msg_clusterID m = (case m of Connect_cluster i \<Rightarrow> Some i | _ \<Rightarrow> None)"

definition msg_serviceName :: "message \<Rightarrow> string option" where
  "msg_serviceName m = (case m of Connect_service n \<Rightarrow> Some n | _ \<Rightarrow> None)"

definition is_connect :: "message \<Rightarrow> bool" where
  "is_connect m = (case m of Connect_cluster i \<Rightarrow> True | Connect_service n \<Rightarrow> True | _ \<Rightarrow> False)"

text \<open>
  \<open>clusterToGroupMap.get(id)\<close>, with \<open>undefined\<close> for an id that is \<open>undefined\<close> or not
  in the map.
\<close>

definition group_of :: "admiral \<Rightarrow> nat option \<Rightarrow> int option" where
  "group_of st i =
     (case i of
        None \<Rightarrow> None
      | Some c \<Rightarrow> map_of (chunkConcurrencyGroups (maxConcurrency st) (clusterCount st)) c)"

text \<open>
  The closure \<open>concurrency\<close> of the handler ends, in two of its branches, with
  \<open>this.queue.execute()\<close> and does nothing else to the state: the result says whether
  it makes that call.
\<close>

definition concurrency :: "queue_item \<Rightarrow> admiral \<Rightarrow> bool" where
  "concurrency qi st =
     (let qu = queue (q st) in
      if itype qi = TService \<and> startServicesTogether st \<and> 1 < length qu then
        itype (qu ! 1) = TService \<and> msg_serviceName (msg qi) \<noteq> msg_serviceName (msg (qu ! 1))
      else if itype qi = TCluster \<and> 1 < length qu then
        itype (qu ! 1) = TCluster
          \<and> group_of st (msg_clusterID (msg qi)) = group_of st (msg_clusterID (msg (qu ! 1)))
      else False)"

text \<open>
  The handler up to that call.  A \<open>connect\<close> is sent when the worker has reported
  \<open>launched\<close> (or is already waited for); else the handler leaves the closure
  \<open>waiting\<close> in \<open>launchingManager\<close>.  A \<open>shutdown\<close> is sent and the kill timer started.
\<close>

definition dispatch :: "queue_item \<Rightarrow> admiral \<Rightarrow> admiral \<times> bool" where
  "dispatch qi st =
     (if i_workerID qi \<in> set (workers st) then
        (if is_connect (msg qi) then
           (case map_of (launchingManager st) (i_workerID qi) of
              Some lr \<Rightarrow>
                (let st1 = send (i_workerID qi) (msg qi) st;
                     st2 = st1\<lparr>launchingManager := AList.delete (i_workerID qi) (launchingManager st1)\<rparr>
                 in (st2, concurrency qi st2))
            | None \<Rightarrow>
                (st\<lparr>launchingManager :=
                      AList.update (i_workerID qi) (Waiting qi) (launchingManager st)\<rparr>, False))
         else if msg qi = Shutdown then
           (let st1 = send (i_workerID qi) (msg qi) st
            in (st1\<lparr>timers := timers st1 @ [KillTimer qi]\<rparr>, False))
         else (send (i_workerID qi) (msg qi) st, False))
      else (st, False))"

lemma dispatch_q [simp]: "q (fst (dispatch qi st)) = q st"
  by (simp add: dispatch_def send_def emit_def Let_def split: option.splits)

lemma concurrency_length: "concurrency qi st \<Longrightarrow> 1 < length (queue (q st))"
  by (simp add: concurrency_def Let_def split: if_splits)

lemma dispatch_again: "snd (dispatch qi st) \<Longrightarrow> 1 < length (queue (q st))"
  by (auto simp: dispatch_def send_def emit_def Let_def
      dest!: concurrency_length split: option.splits if_splits)

text \<open>
  \<open>this.queue.execute(first, override)\<close> together with the handler it calls through
  the "execute" signal; the handler calls \<open>this.queue.execute()\<close> again as its last
  step when \<open>concurrency\<close> says so.
\<close>

function q_execute :: "bool \<Rightarrow> string option \<Rightarrow> admiral \<Rightarrow> admiral" where
  "q_execute first tag st =
     (case execute first tag (q st) of
        (q1, []) \<Rightarrow> st\<lparr>q := q1\<rparr>
      | (q1, (qi, prevItem) # _) \<Rightarrow>
          (case dispatch qi (st\<lparr>q := q1\<rparr>) of
             (st2, again) \<Rightarrow> if again then q_execute False None st2 else st2))"
  by pat_completeness auto
termination
proof (relation "measure (\<lambda>(first, tag, st). 2 * length (queue (q st)) + (if first then 1 else 0))")
  show "wf (measure (\<lambda>(first, tag :: string option, st).
      2 * length (queue (q st)) + (if first then 1 else 0)))"
    by simp
next
  fix first :: bool and tag :: "string option" and st :: admiral
    and q1 ev p es qi prevItem st2 and again :: bool
  assume x: "(q1, ev) = execute first tag (q st)" "ev = p # es" "(qi, prevItem) = p"
    and y: "(st2, again) = dispatch qi (st\<lparr>q := q1\<rparr>)" and again: "again"
  have "q (fst (dispatch qi (st\<lparr>q := q1\<rparr>))) = q1"
    by simp
  then have q2: "q st2 = q1"
    using y by (metis fst_conv)
  have "snd (dispatch qi (st\<lparr>q := q1\<rparr>))"
    using y again by (metis snd_conv)
  then have len: "1 < length (queue q1)"
    using dispatch_again by fastforce
  have "length (queue q1) \<le> length (queue (q st))"
    and "\<not> first \<Longrightarrow> length (queue q1) < length (queue (q st))"
    using x len by (auto simp: execute_def Let_def split: if_splits list.splits)
  then show "((False, None, st2), (first, tag, st))
      \<in> measure (\<lambda>(first, tag, st). 2 * length (queue (q st)) + (if first then 1 else 0))"
    using q2 by (cases first) auto
qed

declare q_execute.simps [simp del]

text \<open>The handler of the "execute" signal in full.\<close>

definition handle :: "queue_item \<Rightarrow> admiral \<Rightarrow> admiral" where
  "handle qi st =
     (case dispatch qi st of (st2, again) \<Rightarrow> if again then q_execute False None st2 else st2)"

text \<open>\<open>this.queue.item\<close> and \<open>this.queue.bulkItems\<close>, with the handler run on the signal.\<close>

definition q_item :: "queue_item \<Rightarrow> string option \<Rightarrow> admiral \<Rightarrow> admiral" where
  "q_item x tag st =
     (case item x tag (q st) of
        (q1, []) \<Rightarrow> st\<lparr>q := q1\<rparr>
      | (q1, (qi, prevItem) # _) \<Rightarrow> handle qi (st\<lparr>q := q1\<rparr>))"

definition q_bulkItems :: "queue_item list \<Rightarrow> string option \<Rightarrow> admiral \<Rightarrow> admiral" where
  "q_bulkItems xs tag st =
     (case bulkItems xs tag (q st) of
        (q1, []) \<Rightarrow> st\<lparr>q := q1\<rparr>
      | (q1, (qi, prevItem) # _) \<Rightarrow> handle qi (st\<lparr>q := q1\<rparr>))"

subsection \<open>\<open>shutdownWorker\<close> and \<open>restartWorker\<close>\<close>

text \<open>
  \<open>shutdownWorker(worker, soft, callback, customMaps)\<close>.  The only \<open>customMaps\<close> the
  code ever passes has the field \<open>clusters\<close> alone, so the argument here is that
  optional map.  The soft path stores the \<open>SoftKillEntry\<close>; the hard path kills at
  once and never calls the callback.  The result is the queue item and the new state.
\<close>

definition shutdownWorker ::
  "wid \<Rightarrow> bool \<Rightarrow> callback \<Rightarrow> (nat \<times> cluster) list option \<Rightarrow> admiral \<Rightarrow> queue_item \<times> admiral" where
  "shutdownWorker w soft cb customMaps st =
     (let cluster0 = (case customMaps of
                        Some cm \<Rightarrow> find_cluster w cm
                      | None \<Rightarrow> find_cluster w (clusters st));
          service0 = find_service w (services st);
          launchingWorker = (case customMaps of
                               Some cm \<Rightarrow> None
                             | None \<Rightarrow> map_of (launchingWorkers st) w);
          cluster = (case launchingWorker of Some (LCluster c) \<Rightarrow> Some c | _ \<Rightarrow> cluster0);
          service = (case launchingWorker of Some (LService s) \<Rightarrow> Some s | _ \<Rightarrow> service0)
      in case cluster of
           Some c \<Rightarrow>
             (QueueItem TCluster w Shutdown,
              if soft then
                st\<lparr>softKills :=
                     AList.update w (ShutdownClusterFn w c (customMaps \<noteq> None) cb) (softKills st)\<rparr>
              else
                (let st1 = kill w st;
                     st2 = (if customMaps = None
                            then st1\<lparr>clusters := AList.delete (clusterID c) (clusters st1)\<rparr>
                            else st1)
                 in emit (Emit (ClusterShutdown c)) st2))
         | None \<Rightarrow>
             (case service of
                Some s \<Rightarrow>
                  (QueueItem TService w Shutdown,
                   if soft then
                     st\<lparr>softKills :=
                          AList.update w (ShutdownServiceFn w s (customMaps \<noteq> None) cb) (softKills st)\<rparr>
                   else
                     (let st1 = kill w st;
                          st2 = (if customMaps = None
                                 then st1\<lparr>services := AList.delete (serviceName s) (services st1)\<rparr>
                                 else st1)
                      in emit (Emit (ServiceShutdown s)) st2))
              | None \<Rightarrow> (QueueItem TN w Shutdown, st)))"

text \<open>
  \<open>restartWorker(worker, manual, soft)\<close>: the replacement is forked and entered in
  \<open>launchingWorkers\<close> under the identity of the old worker.  A soft restart stores the
  \<open>SoftKillEntry\<close> under the new id; any other restart writes the new id into the
  record of the registry at once.  The result is the \<open>connect\<close> item, if any.
\<close>

definition restartWorker :: "wid \<Rightarrow> bool \<Rightarrow> bool \<Rightarrow> admiral \<Rightarrow> queue_item option \<times> admiral" where
  "restartWorker w manual soft st =
     (case find_cluster w (clusters st) of
        Some c \<Rightarrow>
          (case fork st of (newW, st1) \<Rightarrow>
             (let st2 = st1\<lparr>launchingWorkers :=
                          AList.update newW
                            (LCluster (ClusterRec (clusterID c) newW (firstShardID c) (lastShardID c)))
                            (launchingWorkers st1)\<rparr>;
                  st3 = (if soft then
                           st2\<lparr>softKills := AList.update newW (RestartClusterFn w c newW) (softKills st2)\<rparr>
                         else
                           (let stA = st2\<lparr>clusters := AList.delete (clusterID c) (clusters st2)\<rparr>;
                                stB = (if manual then kill w stA else stA)
                            in stB\<lparr>clusters :=
                                 AList.update (clusterID c)
                                   (ClusterRec (clusterID c) newW (firstShardID c) (lastShardID c))
                                   (clusters stB)\<rparr>))
              in (Some (QueueItem TCluster newW (Connect_cluster (clusterID c))), st3)))
      | None \<Rightarrow>
          (case find_service w (services st) of
             Some s \<Rightarrow>
               (case fork st of (newW, st1) \<Rightarrow>
                  (let st2 = st1\<lparr>launchingWorkers :=
                               AList.update newW (LService (ServiceRec (serviceName s) newW (path s)))
                                 (launchingWorkers st1)\<rparr>;
                       st3 = (if soft then
                                st2\<lparr>softKills :=
                                     AList.update newW (RestartServiceFn w s newW) (softKills st2)\<rparr>
                              else
                                (let stA = st2\<lparr>services := AList.delete (serviceName s) (services st2)\<rparr>;
                                     stB = (if manual then kill w stA else stA)
                                 in stB\<lparr>services :=
                                      AList.update (serviceName s) (ServiceRec (serviceName s) newW (path s))
                                        (services stB)\<rparr>))
                   in (Some (QueueItem TService newW (Connect_service (serviceName s))), st3)))
           | None \<Rightarrow> (None, st)))"

subsection \<open>The stored closures\<close>

definition run_cb :: "callback \<Rightarrow> admiral \<Rightarrow> admiral" where
  "run_cb cb st =
     (case cb of
        NoCallback \<Rightarrow> st
      | RestartClusterCb c newW \<Rightarrow>
          (let st1 = send newW LoadCode st;
               st2 = st1\<lparr>clusters := AList.delete (clusterID c) (clusters st1)\<rparr>
           in st2\<lparr>clusters :=
                AList.update (clusterID c)
                  (ClusterRec (clusterID c) newW (firstShardID c) (lastShardID c)) (clusters st2)\<rparr>)
      | RestartServiceCb s newW \<Rightarrow>
          (let st1 = st\<lparr>services := AList.delete (serviceName s) (services st)\<rparr>
           in st1\<lparr>services :=
                AList.update (serviceName s) (ServiceRec (serviceName s) newW (path s)) (services st1)\<rparr>))"

text \<open>
  \<open>fn(failed)\<close> of a \<open>SoftKillEntry\<close>.  The cluster's function skips the kill when
  \<open>failed\<close> is set; the service's function takes no argument and kills always.
\<close>

definition run_fn :: "softkill \<Rightarrow> bool \<Rightarrow> admiral \<Rightarrow> admiral" where
  "run_fn e failed st =
     (case e of
        ShutdownClusterFn w c custom cb \<Rightarrow>
          (let st1 = (if \<not> custom
                      then st\<lparr>clusters := AList.delete (clusterID c) (clusters st),
                              launchingWorkers := AList.delete w (launchingWorkers st)\<rparr>
                      else st);
               st2 = st1\<lparr>softKills := AList.delete w (softKills st1)\<rparr>;
               st3 = (if \<not> failed then kill w (emit (Emit (ClusterShutdown c)) st2) else st2);
               st4 = q_execute False (Some ''shutdownWorker'') st3
           in run_cb cb st4)
      | ShutdownServiceFn w s custom cb \<Rightarrow>
          (let st1 = (if \<not> custom
                      then st\<lparr>services := AList.delete (serviceName s) (services st),
                              launchingWorkers := AList.delete w (launchingWorkers st)\<rparr>
                      else st);
               st2 = st1\<lparr>softKills := AList.delete w (softKills st1)\<rparr>;
               st3 = emit (Emit (ServiceShutdown s)) (kill w st2);
               st4 = q_execute False (Some ''shutdownWorker'') st3
           in run_cb cb st4)
      | RestartClusterFn oldW c newW \<Rightarrow>
          (let st1 = st\<lparr>softKills := AList.delete newW (softKills st)\<rparr>
           in case shutdownWorker oldW True (RestartClusterCb c newW) None st1 of
                (shutdownItem, st2) \<Rightarrow> q_item shutdownItem None st2)
      | RestartServiceFn oldW s newW \<Rightarrow>
          (let st1 = st\<lparr>softKills := AList.delete newW (softKills st)\<rparr>
           in case shutdownWorker oldW True (RestartServiceCb s newW) None st1 of
                (shutdownItem, st2) \<Rightarrow> q_item shutdownItem None st2))"

subsection \<open>The handlers of the messages of the workers\<close>

text \<open>The message \<open>launched\<close> of worker \<open>w\<close>.\<close>

definition launched :: "wid \<Rightarrow> admiral \<Rightarrow> admiral" where
  "launched w st =
     (case map_of (launchingManager st) w of
        Some lr \<Rightarrow>
          (let st1 = (case lr of
                        Launched \<Rightarrow> st
                      | Waiting qi \<Rightarrow>
                          (let stA = send (i_workerID qi) (msg qi) st
                           in if concurrency qi stA then q_execute False None stA else stA))
           in st1\<lparr>launchingManager := AList.delete w (launchingManager st1)\<rparr>)
      | None \<Rightarrow> st\<lparr>launchingManager := AList.update w Launched (launchingManager st)\<rparr>)"

text \<open>
  \<open>Object.entries\<close> lists the own enumerable string-keyed properties of an object.  A
  \<open>Map\<close> keeps its entries in an internal slot and has no such property: the result
  is the empty array for every \<open>Map\<close>.
\<close>

definition Object_entries_of_Map :: "('k \<times> 'v) list \<Rightarrow> (string \<times> 'v) list" where
  "Object_entries_of_Map m = []"

text \<open>
  The message \<open>connected\<close> of worker \<open>w\<close>: the promotion from \<open>launchingWorkers\<close> to
  the registry, then the decision on the Queue.  Reading \<open>launchedWorker.cluster.clusterID\<close>
  of a launching service throws a \<open>TypeError\<close>, which ends the handler.  The pending
  fetches are sent to a new cluster with \<open>process.nextTick\<close>, one callback for each entry
  that \<open>fetches\<close> holds when the handler comes by: these sends take place when the
  handler has returned.
\<close>

definition connected_queue :: "launching \<Rightarrow> admiral \<Rightarrow> admiral" where
  "connected_queue launchedWorker st =
     (let qu = queue (q st) in
      if 1 < length qu then
        (if itype (qu ! 1) = TCluster \<and> itype (qu ! 0) = TCluster then
           (case launchedWorker of
              LService s \<Rightarrow> emit (Emit Uncaught_TypeError) st
            | LCluster c \<Rightarrow>
                (let clusterToGroupMap = chunkConcurrencyGroups (maxConcurrency st) (clusterCount st)
                 in case map_of clusterToGroupMap (clusterID c) of
                      None \<Rightarrow>
                        emit (Emit (ErrorLog ''Error in starting cluster: invalid cluster group ID'')) st
                    | Some clusterGroupID \<Rightarrow>
                        (let groupConnectedTotal =
                               (case map_of (connectedClusterGroups st) clusterGroupID of
                                  None \<Rightarrow> 0 | Some n \<Rightarrow> n) + 1;
                             st1 = st\<lparr>connectedClusterGroups :=
                                      AList.update clusterGroupID groupConnectedTotal
                                        (connectedClusterGroups st)\<rparr>;
                             groupConnectedMax =
                               length (filter (\<lambda>(k, groupID). groupID = clusterGroupID)
                                 (Object_entries_of_Map clusterToGroupMap))
                         in if groupConnectedMax \<le> groupConnectedTotal
                            then st1\<lparr>timers := timers st1 @ [ExecuteTimer]\<rparr>
                            else st1)))
         else if startServicesTogether st \<and> itype (qu ! 1) = TCluster \<and> itype (qu ! 0) = TService then
           (case servicesToCreate st of
              None \<Rightarrow> st
            | Some names \<Rightarrow>
                if length names \<le> length (services st) then q_execute False None st else st)
         else q_execute False None st)
      else
        (let st1 = q_execute False None st;
             st2 = emit (Emit Ready) st1
         in st2\<lparr>connectedClusterGroups := []\<rparr>))"

definition connected :: "wid \<Rightarrow> admiral \<Rightarrow> admiral" where
  "connected w st =
     (case map_of (launchingWorkers st) w of
        None \<Rightarrow> emit (Emit (ErrorLog ''launchedWorker is undefined'')) st
      | Some launchedWorker \<Rightarrow>
          (let st1 =
                 (case launchedWorker of
                    LCluster c \<Rightarrow>
                      (let stA = (if map_of (softKills st) w = None
                                  then st\<lparr>clusters :=
                                         AList.update (clusterID c)
                                           (ClusterRec (clusterID c) w (firstShardID c) (lastShardID c))
                                           (clusters st)\<rparr>
                                  else st)
                       in emit (Emit (ClusterReady c)) stA)
                  | LService s \<Rightarrow>
                      (let stA = (if map_of (softKills st) w = None
                                  then st\<lparr>services :=
                                         AList.update (serviceName s)
                                           (ServiceRec (serviceName s) w (path s)) (services st)\<rparr>
                                  else st)
                       in emit (Emit (ServiceReady s)) stA));
               st2 = st1\<lparr>launchingWorkers := AList.delete w (launchingWorkers st1)\<rparr>;
               st3 = (if \<not> resharding st2 \<and> map_of (softKills st2) w = None
                      then send w LoadCode st2 else st2);
               st4 = (case map_of (softKills st3) w of
                        Some e \<Rightarrow> run_fn e False st3
                      | None \<Rightarrow> st3);
               st5 = connected_queue launchedWorker st4
           in case launchedWorker of
                LCluster c \<Rightarrow>
                  st5\<lparr>out := out st5 @
                        map (\<lambda>f. Send w (Fetch (f_op f) (f_id f) (f_UUID f)))
                          (map snd (fetches st))\<rparr>
              | LService s \<Rightarrow> st5))"

text \<open>The message \<open>codeLoaded\<close> of worker \<open>w\<close>.\<close>

definition codeLoaded :: "wid \<Rightarrow> admiral \<Rightarrow> admiral" where
  "codeLoaded w st =
     (case find_cluster w (clusters st) of
        Some c \<Rightarrow>
          st\<lparr>clustersSequentialFailedRestarts :=
               AList.delete (clusterID c) (clustersSequentialFailedRestarts st)\<rparr>
      | None \<Rightarrow>
          (case find_service w (services st) of
             Some s \<Rightarrow>
               st\<lparr>servicesSequentialFailedRestarts :=
                    AList.delete (serviceName s) (servicesSequentialFailedRestarts st)\<rparr>
           | None \<Rightarrow> st))"

text \<open>
  The message \<open>shutdown\<close>, the acknowledgment of a worker: the handler takes the
  worker at the head of the Queue, whoever sent the message.  On an empty queue
  \<open>this.queue.queue[0].workerID\<close> throws.
\<close>

definition shutdown_ack :: "admiral \<Rightarrow> admiral" where
  "shutdown_ack st =
     (case queue (q st) of
        [] \<Rightarrow> emit (Emit Uncaught_TypeError) st
      | qi # _ \<Rightarrow>
          (case map_of (softKills st) (i_workerID qi) of
             Some e \<Rightarrow> run_fn e False st
           | None \<Rightarrow> st))"

subsection \<open>The exit of a worker and the timers\<close>

definition restart_after_exit :: "wid \<Rightarrow> admiral \<Rightarrow> admiral" where
  "restart_after_exit w st =
     (case restartWorker w False False st of
        (Some restartItem, st1) \<Rightarrow> q_item restartItem None st1
      | (None, st1) \<Rightarrow> st1)"

text \<open>
  The branch of the exit handler for an identity at its limit of sequential restarts,
  after the counter is deleted: the Queue is advanced when the dead worker is at its
  head, and the handler returns.  On an empty queue the test throws.
\<close>

definition limit_reached :: "wid \<Rightarrow> admiral \<Rightarrow> admiral" where
  "limit_reached w st =
     (case queue (q st) of
        [] \<Rightarrow> emit (Emit Uncaught_TypeError) st
      | qi # _ \<Rightarrow> if i_workerID qi = w then q_execute False None st else st)"

text \<open>
  The handler of \<open>exit\<close>; the worker is gone from \<open>cluster.workers\<close> when it runs.
\<close>

definition exit_handler :: "wid \<Rightarrow> admiral \<Rightarrow> admiral" where
  "exit_handler w st0 =
     (let st = st0\<lparr>workers := removeAll w (workers st0)\<rparr> in
      if map_of (softKills st) w \<noteq> None then
        (let st1 = q_execute False None st
         in case map_of (softKills st1) w of
              Some e \<Rightarrow> run_fn e True st1
            | None \<Rightarrow> st1)
      else if maxRestarts st \<noteq> - 1 then
        (case find_cluster w (clusters st) of
           Some c \<Rightarrow>
             (let totalRestarts =
                    (case map_of (clustersSequentialFailedRestarts st) (clusterID c) of
                       None \<Rightarrow> 0 | Some n \<Rightarrow> n)
              in if maxRestarts st \<le> int totalRestarts then
                   limit_reached w
                     (st\<lparr>clustersSequentialFailedRestarts :=
                          AList.delete (clusterID c) (clustersSequentialFailedRestarts st)\<rparr>)
                 else
                   restart_after_exit w
                     (st\<lparr>clustersSequentialFailedRestarts :=
                          AList.update (clusterID c) (totalRestarts + 1)
                            (clustersSequentialFailedRestarts st)\<rparr>))
         | None \<Rightarrow>
             (case find_service w (services st) of
                Some s \<Rightarrow>
                  (let totalRestarts =
                         (case map_of (servicesSequentialFailedRestarts st) (serviceName s) of
                            None \<Rightarrow> 0 | Some n \<Rightarrow> n)
                   in if maxRestarts st \<le> int totalRestarts then
                        limit_reached w
                          (st\<lparr>servicesSequentialFailedRestarts :=
                               AList.delete (serviceName s) (servicesSequentialFailedRestarts st)\<rparr>)
                      else
                        restart_after_exit w
                          (st\<lparr>servicesSequentialFailedRestarts :=
                               AList.update (serviceName s) (totalRestarts + 1)
                                 (servicesSequentialFailedRestarts st)\<rparr>))
              | None \<Rightarrow> restart_after_exit w st))
      else restart_after_exit w st)"

text \<open>
  The kill timer that the "execute" handler starts with a \<open>shutdown\<close>: when it elapses
  and the item's worker is still at the head of the Queue and alive, the worker is
  killed and the \<open>SoftKillEntry\<close>, if there is one, is called with \<open>failed\<close> set.
\<close>

definition kill_timer :: "queue_item \<Rightarrow> admiral \<Rightarrow> admiral" where
  "kill_timer qi st =
     (case queue (q st) of
        [] \<Rightarrow> st
      | h # _ \<Rightarrow>
          if i_workerID h = i_workerID qi \<and> i_workerID qi \<in> set (workers st) then
            (let st1 = kill (i_workerID qi) st
             in case map_of (softKills st1) (i_workerID qi) of
                  Some e \<Rightarrow> run_fn e True st1
                | None \<Rightarrow> st1)
          else st)"

subsection \<open>Targeted fetch\<close>

text \<open>
  The key of a \<open>FetchEntry\<close> is \<open>JSON.stringify({id, UUID})\<close>, here the pair.
  \<open>sendReturn\<close> of \<open>ipcReturn\<close> answers the requester: the Admiral's own IPC for
  \<open>"master"\<close>, else the worker if it is alive.
\<close>

definition sendReturn :: "requester \<Rightarrow> string \<Rightarrow> string option \<Rightarrow> admiral \<Rightarrow> admiral" where
  "sendReturn uuid i v st =
     (case uuid of
        Master \<Rightarrow> emit (Ipc_emit i v) st
      | Worker w \<Rightarrow> if w \<in> set (workers st) then send w (Return i v) st else st)"

text \<open>
  \<open>fetchInfo(op, id, requestWorker)\<close>: the request goes to the clusters \<open>0, 1, ...\<close> up
  to the first id that is not in the registry.
\<close>

definition fetchInfo :: "string \<Rightarrow> string \<Rightarrow> requester \<Rightarrow> admiral \<Rightarrow> admiral" where
  "fetchInfo opn i uuid st =
     (let st1 = st\<lparr>fetches :=
                   AList.update (i, uuid) \<lparr>f_UUID = uuid, f_op = opn, f_id = i, checked = 0\<rparr>
                     (fetches st)\<rparr>;
          ids = takeWhile (\<lambda>k. map_of (clusters st1) k \<noteq> None) [0 ..< length (clusters st1)];
          st2 = fold (\<lambda>k s. case map_of (clusters s) k of
                                None \<Rightarrow> s
                              | Some c \<Rightarrow> if c_workerID c \<in> set (workers s)
                                          then send (c_workerID c) (Fetch opn i uuid) s else s)
                  ids st1
      in st2\<lparr>timers := timers st2 @ [FetchTimer (i, uuid)]\<rparr>)"

text \<open>The timeout of a fetch; \<open>requestWorker.send\<close> of the Admiral's own IPC emits.\<close>

definition fetch_timer :: "string \<times> requester \<Rightarrow> admiral \<Rightarrow> admiral" where
  "fetch_timer key st =
     (case map_of (fetches st) key of
        None \<Rightarrow> st
      | Some f \<Rightarrow>
          (let st1 = st\<lparr>fetches := AList.delete key (fetches st)\<rparr>
           in case snd key of
                Master \<Rightarrow> emit (Ipc_emit (fst key) None) st1
              | Worker w \<Rightarrow> send w (Return (fst key) None) st1))"

text \<open>
  \<open>ipcReturn(message)\<close> for a message \<open>{UUID, value: {id, ...}}\<close>: \<open>None\<close> when
  \<open>message.value.noValue\<close> is set, else the value that is handed on.
\<close>

definition ipcReturn :: "requester \<Rightarrow> string \<Rightarrow> string option \<Rightarrow> admiral \<Rightarrow> admiral" where
  "ipcReturn uuid i v st =
     (case v of
        None \<Rightarrow>
          (case map_of (fetches st) (i, uuid) of
             None \<Rightarrow> st
           | Some f \<Rightarrow>
               (let clustersLaunching =
                      length (filter (\<lambda>l. case l of LCluster c \<Rightarrow> True | LService s \<Rightarrow> False)
                        (map snd (launchingWorkers st)))
                in if checked f + 1 = length (clusters st) + clustersLaunching then
                     (let st1 = sendReturn uuid i None st
                      in st1\<lparr>fetches := AList.delete (i, uuid) (fetches st1)\<rparr>)
                   else
                     st\<lparr>fetches :=
                          AList.update (i, uuid) (f\<lparr>checked := checked f + 1\<rparr>) (fetches st)\<rparr>))
      | Some x \<Rightarrow>
          (let st1 = st\<lparr>fetches := AList.delete (i, uuid) (fetches st)\<rparr>
           in sendReturn uuid i (Some x) st1))"

text \<open>A timer that elapses is taken off the pending ones and its callback runs.\<close>

definition fire :: "timer \<Rightarrow> admiral \<Rightarrow> admiral" where
  "fire t st =
     (if t \<in> set (timers st) then
        (let st1 = st\<lparr>timers := remove1 t (timers st)\<rparr>
         in case t of
              KillTimer qi \<Rightarrow> kill_timer qi st1
            | ExecuteTimer \<Rightarrow> q_execute False None st1
            | FetchTimer key \<Rightarrow> fetch_timer key st1)
      else st)"

subsection \<open>The operations of the public interface\<close>

definition restartCluster :: "nat \<Rightarrow> bool \<Rightarrow> admiral \<Rightarrow> admiral" where
  "restartCluster cid hard st =
     (case map_of (clusters st) cid of
        None \<Rightarrow> st
      | Some clusterObj \<Rightarrow>
          if c_workerID clusterObj \<in> set (workers st) then
            (case restartWorker (c_workerID clusterObj) True (\<not> hard) st of
               (Some restartItem, st1) \<Rightarrow> q_item restartItem None st1
             | (None, st1) \<Rightarrow> st1)
          else st)"

definition restartService :: "string \<Rightarrow> bool \<Rightarrow> admiral \<Rightarrow> admiral" where
  "restartService name hard st =
     (case map_of (services st) name of
        None \<Rightarrow> st
      | Some serviceObj \<Rightarrow>
          if s_workerID serviceObj \<in> set (workers st) then
            (case restartWorker (s_workerID serviceObj) True (\<not> hard) st of
               (Some restartItem, st1) \<Rightarrow> q_item restartItem None st1
             | (None, st1) \<Rightarrow> st1)
          else st)"

definition shutdownCluster :: "nat \<Rightarrow> bool \<Rightarrow> admiral \<Rightarrow> admiral" where
  "shutdownCluster cid hard st =
     (case map_of (clusters st) cid of
        None \<Rightarrow> st
      | Some clusterObj \<Rightarrow>
          if c_workerID clusterObj \<in> set (workers st) then
            (case shutdownWorker (c_workerID clusterObj) (\<not> hard) NoCallback None st of
               (shutdownItem, st1) \<Rightarrow> q_item shutdownItem None st1)
          else st)"

text \<open>
  \<open>shutdownService\<close> also takes the name off \<open>servicesToCreate\<close>:
  \<open>splice(findIndex(...), 1)\<close>, which for the index \<open>-1\<close> of a name that is not there
  takes off the last element.
\<close>

definition splice_name :: "string \<Rightarrow> string list \<Rightarrow> string list" where
  "splice_name name names =
     (if name \<in> set names
      then takeWhile (\<lambda>n. n \<noteq> name) names @ drop 1 (dropWhile (\<lambda>n. n \<noteq> name) names)
      else butlast names)"

definition shutdownService :: "string \<Rightarrow> bool \<Rightarrow> admiral \<Rightarrow> admiral" where
  "shutdownService name hard st =
     (case map_of (services st) name of
        None \<Rightarrow> st
      | Some serviceObj \<Rightarrow>
          (let st1 = (if s_workerID serviceObj \<in> set (workers st) then
                        (case shutdownWorker (s_workerID serviceObj) (\<not> hard) NoCallback None st of
                           (shutdownItem, stA) \<Rightarrow> q_item shutdownItem None stA)
                      else st)
           in st1\<lparr>servicesToCreate := map_option (splice_name name) (servicesToCreate st1)\<rparr>))"

text \<open>
  \<open>startService(servicesToStart, ...)\<close> for services given by name and path: one
  worker is forked for each and all \<open>connect\<close> items are queued at once.
\<close>

fun fork_services :: "(string \<times> string) list \<Rightarrow> admiral \<Rightarrow> queue_item list \<times> admiral" where
  "fork_services [] st = ([], st)"
| "fork_services ((name, pth) # rest) st =
     (case fork st of (w, st1) \<Rightarrow>
        (let st2 = st1\<lparr>launchingWorkers :=
                     AList.update w (LService (ServiceRec name w pth)) (launchingWorkers st1)\<rparr>
         in case fork_services rest st2 of
              (items, st3) \<Rightarrow> (QueueItem TService w (Connect_service name) # items, st3)))"

definition startService :: "(string \<times> string) list \<Rightarrow> admiral \<Rightarrow> admiral" where
  "startService servicesToStart st =
     (case fork_services servicesToStart st of
        (queueItems, st1) \<Rightarrow> q_bulkItems queueItems None st1)"

text \<open>
  \<open>startCluster()\<close>: a worker is forked for every cluster id below \<open>clusterCount\<close>;
  then, for every chunk of \<open>this.chunks\<close>, given here by its smallest and its largest
  shard id, the launching entry of the cluster with the chunk's index gets the range;
  then the \<open>connect\<close> items are queued at once.  \<open>launchingWorkers.find\<close> returns the
  first entry with the cluster id; when there is none, reading \<open>.cluster\<close> throws.
\<close>

definition find_launching :: "nat \<Rightarrow> admiral \<Rightarrow> cluster option" where
  "find_launching cid st =
     (case find (\<lambda>l. case l of LCluster c \<Rightarrow> clusterID c = cid | LService s \<Rightarrow> False)
             (map snd (launchingWorkers st)) of
        Some (LCluster c) \<Rightarrow> Some c
      | _ \<Rightarrow> None)"

fun fork_clusters :: "nat list \<Rightarrow> admiral \<Rightarrow> admiral" where
  "fork_clusters [] st = st"
| "fork_clusters (i # rest) st =
     (case fork st of (w, st1) \<Rightarrow>
        fork_clusters rest
          (st1\<lparr>launchingWorkers :=
                AList.update w (LCluster (ClusterRec i w 0 0)) (launchingWorkers st1)\<rparr>))"

fun spread_chunks :: "(int \<times> int) list \<Rightarrow> nat \<Rightarrow> admiral \<Rightarrow> admiral option" where
  "spread_chunks [] cid st = Some st"
| "spread_chunks ((lo, hi) # rest) cid st =
     (case find_launching cid st of
        None \<Rightarrow> None
      | Some c \<Rightarrow>
          spread_chunks rest (Suc cid)
            (st\<lparr>launchingWorkers :=
                 AList.update (c_workerID c) (LCluster (ClusterRec cid (c_workerID c) lo hi))
                   (launchingWorkers st)\<rparr>))"

fun connect_items :: "nat list \<Rightarrow> admiral \<Rightarrow> queue_item list option" where
  "connect_items [] st = Some []"
| "connect_items (i # rest) st =
     (case find_launching i st of
        None \<Rightarrow> None
      | Some c \<Rightarrow>
          map_option (\<lambda>items. QueueItem TCluster (c_workerID c) (Connect_cluster i) # items)
            (connect_items rest st))"

definition startCluster :: "(int \<times> int) list option \<Rightarrow> admiral \<Rightarrow> admiral" where
  "startCluster chunks st =
     (let st1 = fork_clusters [0 ..< clusterCount st] st;
          st2 = (case chunks of None \<Rightarrow> Some st1 | Some cs \<Rightarrow> spread_chunks cs 0 st1)
      in case st2 of
           None \<Rightarrow> emit (Emit Uncaught_TypeError) st1
         | Some st3 \<Rightarrow>
             (case connect_items [0 ..< clusterCount st3] st3 of
                None \<Rightarrow> emit (Emit Uncaught_TypeError) st3
              | Some queueItems \<Rightarrow> q_bulkItems queueItems None st3))"

subsection \<open>Runs of the orchestrator\<close>

text \<open>
  What can happen to the orchestrator: a message of a worker, the exit of a worker, a
  timer that elapses, a call of the public interface.  A run starts from the state the
  constructor leaves, with the configuration as given.
\<close>

datatype input =
    In_launched wid
  | In_connected wid
  | In_codeLoaded wid
  | In_shutdown
  | In_exit wid
  | In_timer timer
  | In_fetch string string requester
  | In_return requester string "string option"
  | In_restartCluster nat bool
  | In_restartService string bool
  | In_shutdownCluster nat bool
  | In_shutdownService string bool
  | In_startService "(string \<times> string) list"
  | In_startCluster "(int \<times> int) list option"

fun step :: "input \<Rightarrow> admiral \<Rightarrow> admiral" where
  "step (In_launched w) st = launched w st"
| "step (In_connected w) st = connected w st"
| "step (In_codeLoaded w) st = codeLoaded w st"
| "step In_shutdown st = shutdown_ack st"
| "step (In_exit w) st = exit_handler w st"
| "step (In_timer t) st = fire t st"
| "step (In_fetch opn i uuid) st = fetchInfo opn i uuid st"
| "step (In_return uuid i v) st = ipcReturn uuid i v st"
| "step (In_restartCluster cid hard) st = restartCluster cid hard st"
| "step (In_restartService name hard) st = restartService name hard st"
| "step (In_shutdownCluster cid hard) st = shutdownCluster cid hard st"
| "step (In_shutdownService name hard) st = shutdownService name hard st"
| "step (In_startService svcs) st = startService svcs st"
| "step (In_startCluster chunks) st = startCluster chunks st"

definition run :: "input list \<Rightarrow> admiral \<Rightarrow> admiral" where
  "run ins st = fold step ins st"

definition init :: "int \<Rightarrow> nat \<Rightarrow> int \<Rightarrow> bool \<Rightarrow> string list option \<Rightarrow> admiral" where
  "init mc cc mr together svcs =
     \<lparr>clusters = [], services = [], launchingWorkers = [], softKills = [],
      launchingManager = [], connectedClusterGroups = [],
      clustersSequentialFailedRestarts = [], servicesSequentialFailedRestarts = [],
      fetches = [], q = \<lparr>queue = [], override = None\<rparr>, workers = [], nextWorkerID = 1,
      timers = [], out = [], maxConcurrency = mc, clusterCount = cc, maxRestarts = mr,
      startServicesTogether = together, servicesToCreate = svcs, resharding = False\<rparr>"

subsection \<open>Frames\<close>

text \<open>
  What the Queue and the handler of its signal may change of the state: the queue, the
  launching manager, the pending timers and the trace.
\<close>

definition framed :: "admiral \<Rightarrow> admiral \<Rightarrow> bool" where
  "framed st st' =
     (st' = st\<lparr>q := q st', launchingManager := launchingManager st', timers := timers st',
              out := out st'\<rparr>)"

subsection \<open>The counters of sequential failures and example runs\<close>

text \<open>The read \<open>map.get(key) ?? 0\<close> of a counter.\<close>

definition counter :: "('k \<times> nat) list \<Rightarrow> 'k \<Rightarrow> nat" where
  "counter m k = (case map_of m k of None \<Rightarrow> 0 | Some n \<Rightarrow> n)"

text \<open>
  Runs with \<open>maxRestarts = 1\<close>: one cluster (one service) launched, connected and with
  its code loaded; then the worker exits, and then its replacement.
\<close>

definition ex_c0 :: admiral where
  "ex_c0 = run [In_startCluster None, In_launched 1, In_connected 1, In_codeLoaded 1]
     (init 1 1 1 False None)"

definition ex_c1 :: admiral where
  "ex_c1 = run [In_exit 1] ex_c0"

definition ex_c2 :: admiral where
  "ex_c2 = run [In_exit 2] ex_c1"

definition ex_s0 :: admiral where
  "ex_s0 = run [In_startService [(''svc'', ''/svc.js'')], In_launched 1, In_connected 1, In_codeLoaded 1]
     (init 1 0 1 False (Some [''svc'']))"

definition ex_s1 :: admiral where
  "ex_s1 = run [In_exit 1] ex_s0"

text \<open>
  A cluster on its first launch, whose worker has reported \<open>launched\<close> and has been sent
  \<open>connect\<close> but has not reported \<open>connected\<close>; and the run of \<open>ex_c0\<close> with no limit of
  restarts (\<open>maxRestarts = -1\<close>).
\<close>

definition ex_l0 :: admiral where
  "ex_l0 = run [In_startCluster None, In_launched 1] (init 1 1 1 False None)"

definition ex_u0 :: admiral where
  "ex_u0 = run [In_startCluster None, In_launched 1, In_connected 1, In_codeLoaded 1]
     (init 1 1 (- 1) False None)"

subsection \<open>The answers to a fetch\<close>

text \<open>The answer a requester gets: \<open>{op: "return", id, value}\<close>, or the event of the Admiral's own IPC.\<close>

definition answer :: "requester \<Rightarrow> string \<Rightarrow> string option \<Rightarrow> effect" where
  "answer uuid i v = (case uuid of Master \<Rightarrow> Ipc_emit i v | Worker w \<Rightarrow> Send w (Return i v))"

definition nulls :: "string \<times> requester \<Rightarrow> admiral \<Rightarrow> nat" where
  "nulls key st = length (filter (\<lambda>e. e = answer (snd key) (fst key) None) (out st))"

definition can_answer :: "requester \<Rightarrow> admiral \<Rightarrow> bool" where
  "can_answer uuid st = (case uuid of Master \<Rightarrow> True | Worker w \<Rightarrow> w \<in> set (workers st))"

text \<open>
  The number \<open>ipcReturn\<close> compares the count of the "no value" replies with:
  \<open>this.clusters.size + clustersLaunching\<close>.
\<close>

definition clusters_asked :: "admiral \<Rightarrow> nat" where
  "clusters_asked st =
     length (clusters st)
       + length (filter (\<lambda>l. case l of LCluster c \<Rightarrow> True | LService s \<Rightarrow> False)
           (map snd (launchingWorkers st)))"

fun reply_or_timeout :: "string \<times> requester \<Rightarrow> input \<Rightarrow> bool" where
  "reply_or_timeout key (In_return uuid i v) = ((i, uuid) = key)"
| "reply_or_timeout key (In_timer t) = (t = FetchTimer key)"
| "reply_or_timeout key inp = False"

text \<open>
  What the claim about a fetch is stated with.  \<open>same_fetch\<close>: a call of \<open>fetchInfo\<close>
  under the key of the fetch, which makes a new \<open>FetchEntry\<close>.  \<open>unanswered\<close>: the input
  is no such call, no reply with a value for the fetch, and not the exit of the
  requester.  \<open>exited\<close>: the worker whose exit the input is.
\<close>

fun same_fetch :: "string \<times> requester \<Rightarrow> input \<Rightarrow> bool" where
  "same_fetch key (In_fetch opn i uuid) = ((i, uuid) = key)"
| "same_fetch key inp = False"

fun exited :: "input \<Rightarrow> wid set" where
  "exited (In_exit w) = {w}"
| "exited inp = {}"

fun unanswered :: "string \<times> requester \<Rightarrow> input \<Rightarrow> bool" where
  "unanswered key (In_fetch opn i uuid) = ((i, uuid) \<noteq> key)"
| "unanswered key (In_return uuid i v) = ((i, uuid) \<noteq> key \<or> v = None)"
| "unanswered key (In_exit w) = (snd key \<noteq> Worker w)"
| "unanswered key inp = True"

text \<open>
  The lifecycle handlers send what the Queue holds.  \<open>QInv\<close>: no item of the Queue,
  and no item that waits in \<open>launchingManager\<close> for its worker's \<open>launched\<close>, carries a
  \<open>return\<close> message; the items the code makes are \<open>connect\<close> and \<open>shutdown\<close> items.
  \<open>keeps W key st st'\<close>: from \<open>st\<close> to \<open>st'\<close> the \<open>FetchEntry\<close> of \<open>key\<close> is as it was,
  the timeout of \<open>key\<close> is still pending if it was, no worker outside \<open>W\<close> is gone, and,
  when \<open>QInv\<close> holds in \<open>st\<close>, it holds in \<open>st'\<close> and the requester of \<open>key\<close> has been sent
  no further \<open>null\<close>.
\<close>

fun no_return :: "message \<Rightarrow> bool" where
  "no_return (Return i v) = False"
| "no_return m = True"

definition QInv :: "admiral \<Rightarrow> bool" where
  "QInv st =
     (list_all (\<lambda>qi. no_return (msg qi)) (queue (q st))
      \<and> list_all (\<lambda>e. case snd e of Launched \<Rightarrow> True | Waiting qi \<Rightarrow> no_return (msg qi))
           (launchingManager st))"

definition keeps :: "wid set \<Rightarrow> string \<times> requester \<Rightarrow> admiral \<Rightarrow> admiral \<Rightarrow> bool" where
  "keeps W key st st' =
     ((QInv st \<longrightarrow> QInv st' \<and> nulls key st' = nulls key st)
      \<and> map_of (fetches st') key = map_of (fetches st) key
      \<and> (FetchTimer key \<in> set (timers st) \<longrightarrow> FetchTimer key \<in> set (timers st'))
      \<and> set (workers st) - W \<subseteq> set (workers st'))"

text \<open>Two clusters, launched one after the other with \<open>maxConcurrency = 1\<close>.\<close>

definition ex_f0 :: admiral where
  "ex_f0 = run [In_startCluster None, In_launched 1, In_launched 2, In_connected 1,
                In_timer ExecuteTimer, In_connected 2] (init 1 2 5 False None)"

subsection \<open>The worker ids of clusters and of services\<close>

text \<open>
  The worker ids the state holds for clusters, \<open>CK5\<close>, and for services, \<open>SK5\<close>: the
  \<open>workerID\<close> of the records of the two registries, the keys of \<open>launchingWorkers\<close> by
  what the entry holds, and the ids of the new workers that the stored closures have
  captured and will write into a registry (the \<open>newWorker.id\<close> of a soft restart).
  \<open>Inv\<close>: no id is of both kinds, every id is one that \<open>cluster.fork\<close> has handed
  out, and every entry of \<open>launchingWorkers\<close> stands under the \<open>workerID\<close> of its record.
  \<open>okC\<close> and \<open>okS\<close>: ids that can be entered as ids of clusters (of services).
\<close>

fun cb_cluster_ids :: "callback \<Rightarrow> wid set" where
  "cb_cluster_ids (RestartClusterCb c w) = {w}"
| "cb_cluster_ids cb = {}"

fun cb_service_ids :: "callback \<Rightarrow> wid set" where
  "cb_service_ids (RestartServiceCb s w) = {w}"
| "cb_service_ids cb = {}"

fun sk_cluster_ids :: "softkill \<Rightarrow> wid set" where
  "sk_cluster_ids (ShutdownClusterFn w c custom cb) = cb_cluster_ids cb"
| "sk_cluster_ids (ShutdownServiceFn w s custom cb) = cb_cluster_ids cb"
| "sk_cluster_ids (RestartClusterFn oldW c newW) = {newW}"
| "sk_cluster_ids (RestartServiceFn oldW s newW) = {}"

fun sk_service_ids :: "softkill \<Rightarrow> wid set" where
  "sk_service_ids (ShutdownClusterFn w c custom cb) = cb_service_ids cb"
| "sk_service_ids (ShutdownServiceFn w s custom cb) = cb_service_ids cb"
| "sk_service_ids (RestartClusterFn oldW c newW) = {}"
| "sk_service_ids (RestartServiceFn oldW s newW) = {newW}"

definition CK5 :: "(nat \<times> cluster) list \<Rightarrow> (wid \<times> launching) list \<Rightarrow> (wid \<times> softkill) list \<Rightarrow> wid set" where
  "CK5 cs ls ks = (c_workerID \<circ> snd) ` set cs \<union> {w. \<exists>c. (w, LCluster c) \<in> set ls}
      \<union> \<Union> ((sk_cluster_ids \<circ> snd) ` set ks)"

definition SK5 :: "(string \<times> service) list \<Rightarrow> (wid \<times> launching) list \<Rightarrow> (wid \<times> softkill) list \<Rightarrow> wid set" where
  "SK5 ss ls ks = (s_workerID \<circ> snd) ` set ss \<union> {w. \<exists>s. (w, LService s) \<in> set ls}
      \<union> \<Union> ((sk_service_ids \<circ> snd) ` set ks)"

fun l_wid :: "launching \<Rightarrow> wid" where
  "l_wid (LCluster c) = c_workerID c"
| "l_wid (LService s) = s_workerID s"

definition launch_ok :: "(wid \<times> launching) list \<Rightarrow> bool" where
  "launch_ok ls = list_all (\<lambda>(w, l). l_wid l = w) ls"

definition Inv5 ::
  "(nat \<times> cluster) list \<Rightarrow> (string \<times> service) list \<Rightarrow> (wid \<times> launching) list
     \<Rightarrow> (wid \<times> softkill) list \<Rightarrow> wid \<Rightarrow> bool" where
  "Inv5 cs ss ls ks n =
     (CK5 cs ls ks \<inter> SK5 ss ls ks = {}
      \<and> CK5 cs ls ks \<union> SK5 ss ls ks \<subseteq> {..< n}
      \<and> launch_ok ls)"

definition okC :: "wid set \<Rightarrow> (string \<times> service) list \<Rightarrow> (wid \<times> launching) list \<Rightarrow> (wid \<times> softkill) list \<Rightarrow> wid \<Rightarrow> bool" where
  "okC W ss ls ks n = (W \<subseteq> {..< n} \<and> W \<inter> SK5 ss ls ks = {})"

definition okS :: "wid set \<Rightarrow> (nat \<times> cluster) list \<Rightarrow> (wid \<times> launching) list \<Rightarrow> (wid \<times> softkill) list \<Rightarrow> wid \<Rightarrow> bool" where
  "okS W cs ls ks n = (W \<subseteq> {..< n} \<and> W \<inter> CK5 cs ls ks = {})"

definition okCs :: "wid set \<Rightarrow> admiral \<Rightarrow> bool" where
  "okCs W st = okC W (services st) (launchingWorkers st) (softKills st) (nextWorkerID st)"

definition okSs :: "wid set \<Rightarrow> admiral \<Rightarrow> bool" where
  "okSs W st = okS W (clusters st) (launchingWorkers st) (softKills st) (nextWorkerID st)"

definition Inv :: "admiral \<Rightarrow> bool" where
  "Inv st = Inv5 (clusters st) (services st) (launchingWorkers st) (softKills st) (nextWorkerID st)"


text \<open>
  The three stores of the claim, by the worker ids they hold: the \<open>workerID\<close> of every
  record of the cluster registry and of the service registry, and the keys of
  \<open>launchingWorkers\<close> (all of them, and those of the launching clusters and of the
  launching services).
\<close>

definition cluster_workerIDs :: "admiral \<Rightarrow> wid list" where
  "cluster_workerIDs st = map (c_workerID \<circ> snd) (clusters st)"

definition service_workerIDs :: "admiral \<Rightarrow> wid list" where
  "service_workerIDs st = map (s_workerID \<circ> snd) (services st)"

definition launching_workerIDs :: "admiral \<Rightarrow> wid list" where
  "launching_workerIDs st = map fst (launchingWorkers st)"

fun is_LCluster :: "launching \<Rightarrow> bool" where
  "is_LCluster (LCluster c) = True"
| "is_LCluster (LService s) = False"

definition launching_cluster_workerIDs :: "admiral \<Rightarrow> wid list" where
  "launching_cluster_workerIDs st = map fst (filter (\<lambda>e. is_LCluster (snd e)) (launchingWorkers st))"

definition launching_service_workerIDs :: "admiral \<Rightarrow> wid list" where
  "launching_service_workerIDs st = map fst (filter (\<lambda>e. \<not> is_LCluster (snd e)) (launchingWorkers st))"


text \<open>The number of the three stores that hold a worker id.\<close>

definition in_stores :: "wid \<Rightarrow> admiral \<Rightarrow> nat" where
  "in_stores w st =
     (if w \<in> set (cluster_workerIDs st) then 1 else 0)
     + (if w \<in> set (service_workerIDs st) then 1 else 0)
     + (if w \<in> set (launching_workerIDs st) then 1 else 0)"

section \<open>Theorems\<close>

subsection \<open>The override gate of the Queue\<close>

text \<open>
  Claim C8.  Once the override tag is set (to a string that JavaScript takes as true,
  that is a non-empty one), a call of \<open>execute\<close>, \<open>item\<close> or \<open>bulkItems\<close> whose tag
  differs from it, the missing tag included, leaves the queue as it is and emits no
  "execute" signal.  A call that carries the override tag does what it would do on the
  same queue with no override set.
\<close>

theorem C8_override_gate:
  assumes "override qs = Some t" and "t \<noteq> []"
  shows "(tag \<noteq> Some t \<longrightarrow>
            execute first tag qs = (qs, []) \<and> item x tag qs = (qs, []) \<and> bulkItems xs tag qs = (qs, []))
       \<and> execute first (Some t) qs =
            (let (q1, ev) = execute first (Some t) (qs\<lparr>override := None\<rparr>)
             in (q1\<lparr>override := Some t\<rparr>, ev))
       \<and> item x (Some t) qs =
            (let (q1, ev) = item x (Some t) (qs\<lparr>override := None\<rparr>)
             in (q1\<lparr>override := Some t\<rparr>, ev))
       \<and> bulkItems xs (Some t) qs =
            (let (q1, ev) = bulkItems xs (Some t) (qs\<lparr>override := None\<rparr>)
             in (q1\<lparr>override := Some t\<rparr>, ev))"
  using assms
  by (auto simp: execute_def item_def bulkItems_def gate_closed_def truthy_def Let_def
      split: list.splits)

theorem C8_override_gate_witness:
  "override \<lparr>queue = [1::nat, 2], override = Some ''shutdownWorker''\<rparr> = Some ''shutdownWorker''
   \<and> ''shutdownWorker'' \<noteq> []
   \<and> execute False None \<lparr>queue = [1::nat, 2], override = Some ''shutdownWorker''\<rparr>
     = (\<lparr>queue = [1, 2], override = Some ''shutdownWorker''\<rparr>, [])
   \<and> item 3 (Some ''other'') \<lparr>queue = [1::nat, 2], override = Some ''shutdownWorker''\<rparr>
     = (\<lparr>queue = [1, 2], override = Some ''shutdownWorker''\<rparr>, [])
   \<and> bulkItems [3, 4] None \<lparr>queue = [1::nat, 2], override = Some ''shutdownWorker''\<rparr>
     = (\<lparr>queue = [1, 2], override = Some ''shutdownWorker''\<rparr>, [])
   \<and> execute False (Some ''shutdownWorker'')
        \<lparr>queue = [1::nat, 2], override = Some ''shutdownWorker''\<rparr>
     = (\<lparr>queue = [2], override = Some ''shutdownWorker''\<rparr>, [(2, Some 1)])"
  using C8_override_gate
    [of "\<lparr>queue = [1::nat, 2], override = Some ''shutdownWorker''\<rparr>" "''shutdownWorker''"]
  by (simp add: execute_def item_def bulkItems_def gate_closed_def truthy_def)


subsection \<open>Shard partitioning\<close>

lemma ceil_div_nat: "0 < c \<Longrightarrow> ceil_div (int n) (int c) = int (ceil_nat n c)"
proof -
  assume c: "0 < c"
  have "(- int n) div int c =
      (if int n mod int c = 0 then - (int n div int c) else - (int n div int c) - 1)"
    using c by (simp add: zdiv_zminus1_eq_if)
  moreover have "int n mod int c = int (n mod c)" and "int n div int c = int (n div c)"
    by (simp_all add: zmod_int zdiv_int)
  ultimately show ?thesis
    by (simp add: ceil_div_def ceil_nat_def)
qed

lemma ceil_step_div:
  fixes n c :: nat
  assumes c: "2 \<le> c" and n: "1 \<le> n"
  shows "(n - ceil_nat n c) div (c - 1) = n div c"
    and "(n - ceil_nat n c) mod (c - 1) = n mod c - 1"
    and "ceil_nat n c \<le> n" and "1 \<le> ceil_nat n c"
proof -
  define q r where "q = n div c" and "r = n mod c"
  define p where "p = q * (c - 1)"
  have rc: "r < c"
    using c by (simp add: r_def)
  have "n = q * c + r"
    by (simp add: q_def r_def)
  also have "q * c = p + q"
    unfolding p_def using c by (cases c) simp_all
  finally have np: "n = p + q + r" .
  have s: "ceil_nat n c = (if r = 0 then q else q + 1)"
    by (simp add: ceil_nat_def q_def r_def)
  have q1: "r = 0 \<Longrightarrow> 1 \<le> q"
  proof (rule ccontr)
    assume "r = 0" and "\<not> 1 \<le> q"
    then have "q = 0" by simp
    then have "p = 0" by (simp add: p_def)
    with \<open>q = 0\<close> \<open>r = 0\<close> np n show False by simp
  qed
  have "p + q + r - (if r = 0 then q else q + 1) = p + (r - 1)"
    by (cases "r = 0") simp_all
  then have diff: "n - ceil_nat n c = p + (r - 1)"
    using s np by simp
  have r1: "r - 1 < c - 1"
    using rc c by linarith
  have "(q * (c - 1) + (r - 1)) div (c - 1) = q"
    using r1 by simp
  then show "(n - ceil_nat n c) div (c - 1) = n div c"
    unfolding diff p_def q_def .
  have "(q * (c - 1) + (r - 1)) mod (c - 1) = r - 1"
    using r1 by simp
  then show "(n - ceil_nat n c) mod (c - 1) = n mod c - 1"
    unfolding diff p_def r_def .
  have "(if r = 0 then q else q + 1) \<le> p + q + r"
    by (cases "r = 0") simp_all
  then show "ceil_nat n c \<le> n"
    using s np by simp
  have "1 \<le> (if r = 0 then q else q + 1)"
    using q1 by (cases "r = 0") simp_all
  then show "1 \<le> ceil_nat n c"
    using s by simp
qed

lemma ceil_nat_step_le:
  fixes n c :: nat
  assumes c: "2 \<le> c" and n: "1 \<le> n"
  shows "ceil_nat (n - ceil_nat n c) (c - 1) \<le> ceil_nat n c"
proof -
  have "ceil_nat (n - ceil_nat n c) (c - 1) =
      (if n mod c - 1 = 0 then n div c else n div c + 1)"
    by (simp only: ceil_nat_def [of "n - ceil_nat n c"] ceil_step_div(1,2) [OF c n])
  also have "\<dots> \<le> ceil_nat n c"
    by (simp add: ceil_nat_def)
  finally show ?thesis .
qed

lemma min_step:
  fixes n c :: nat
  assumes c: "2 \<le> c" and n: "1 \<le> n"
  shows "Suc (min (n - ceil_nat n c) (c - 1)) = min n c"
proof (cases "c \<le> n")
  case True
  then have "1 \<le> n div c"
    using c by (simp add: Suc_le_eq div_greater_zero_iff)
  then have "1 * (c - 1) \<le> (n div c) * (c - 1)"
    by (intro mult_le_mono1)
  also have "\<dots> \<le> n - ceil_nat n c"
    using div_times_less_eq_dividend [of "n - ceil_nat n c" "c - 1"]
    by (simp only: ceil_step_div(1) [OF c n])
  finally show ?thesis using True c by simp
next
  case False
  then have "n div c = 0" "n mod c = n" by simp_all
  then have "ceil_nat n c = 1" using n by (simp add: ceil_nat_def)
  then show ?thesis using False n by simp
qed


lemma chunk_uneven_done: "length shards \<le> i \<Longrightarrow> chunk_uneven shards k i = Some []"
  by (subst chunk_uneven.simps) simp

lemma chunk_even_done: "length shards \<le> i \<Longrightarrow> chunk_even shards sz i = Some []"
  by (subst chunk_even.simps) simp

lemma slice_drop: "slice xs i (i + s) @ drop (i + s) xs = drop i xs"
  by (simp add: slice_def add.commute [of i s] flip: drop_drop)

lemma length_slice: "i + s \<le> length xs \<Longrightarrow> length (slice xs i (i + s)) = s"
  by (simp add: slice_def)

lemma chunk_uneven_spec:
  "1 \<le> c \<Longrightarrow> i \<le> length shards \<Longrightarrow>
   \<exists>gs. chunk_uneven shards (int c) i = Some gs
      \<and> concat gs = drop i shards
      \<and> length gs = min (length shards - i) c
      \<and> (\<forall>g \<in> set gs. (length shards - i) div c \<le> length g
             \<and> length g \<le> ceil_nat (length shards - i) c \<and> g \<noteq> [])
      \<and> sorted_wrt (\<lambda>a b. length b \<le> length a) gs"
proof (induction c arbitrary: i)
  case 0
  then show ?case by simp
next
  case (Suc c)
  define n where "n = length shards - i"
  show ?case
  proof (cases "n = 0")
    case True
    then have "length shards \<le> i" by (simp add: n_def)
    then show ?thesis by (simp add: chunk_uneven_done)
  next
    case False
    then have lt: "i < length shards" and n1: "1 \<le> n" by (simp_all add: n_def)
    define s where "s = ceil_nat n (Suc c)"
    have sz: "nat (ceil_div (int (length shards - i)) (int (Suc c))) = s"
      unfolding s_def n_def by (subst ceil_div_nat) simp_all
    have unfold: "chunk_uneven shards (int (Suc c)) i =
        map_option (\<lambda>r. slice shards i (i + s) # r) (chunk_uneven shards (int c) (i + s))"
      using lt sz by (subst chunk_uneven.simps) (simp add: Let_def)
    show ?thesis
    proof (cases "c = 0")
      case True
      then have s_n: "s = n" by (simp add: s_def ceil_nat_def)
      then have "length shards \<le> i + s" by (simp add: n_def)
      then have rest: "chunk_uneven shards (int c) (i + s) = Some []"
        by (rule chunk_uneven_done)
      have sl: "slice shards i (i + s) = drop i shards"
        by (simp add: slice_def s_n n_def)
      have "chunk_uneven shards (int (Suc c)) i = Some [drop i shards]"
        by (simp only: unfold rest sl option.map)
      moreover have "length (drop i shards) = n" "drop i shards \<noteq> []"
        using lt by (simp_all add: n_def)
      moreover have "ceil_nat n (Suc c) = n" "n div Suc c = n" "min n (Suc c) = 1"
        using True n1 by (simp_all add: ceil_nat_def)
      ultimately show ?thesis
        by (simp flip: n_def)
    next
      case False
      then have c2: "2 \<le> Suc c" and c1: "1 \<le> c" by simp_all
      have s_le: "s \<le> n" and s1: "1 \<le> s"
        unfolding s_def by (rule ceil_step_div [OF c2 n1])+
      have is_le: "i + s \<le> length shards"
        using s_le lt by (simp add: n_def)
      have n': "length shards - (i + s) = n - s"
        by (simp add: n_def)
      from Suc.IH [OF c1 is_le] obtain gs where
        gs: "chunk_uneven shards (int c) (i + s) = Some gs"
        and cat: "concat gs = drop (i + s) shards"
        and len: "length gs = min (n - s) c"
        and bnd: "\<forall>g \<in> set gs. (n - s) div c \<le> length g
             \<and> length g \<le> ceil_nat (n - s) c \<and> g \<noteq> []"
        and srt: "sorted_wrt (\<lambda>a b. length b \<le> length a) gs"
        unfolding n' by blast
      have lsl: "length (slice shards i (i + s)) = s"
        by (rule length_slice [OF is_le])
      have dv: "(n - s) div c = n div Suc c"
        using ceil_step_div(1) [OF c2 n1] by (simp add: s_def)
      have cl: "ceil_nat (n - s) c \<le> s"
        using ceil_nat_step_le [OF c2 n1] by (simp add: s_def)
      have ms: "Suc (min (n - s) c) = min n (Suc c)"
        using min_step [OF c2 n1] by (simp add: s_def)
      have fl: "n div Suc c \<le> s"
        by (simp add: s_def ceil_nat_def)
      let ?r = "slice shards i (i + s) # gs"
      have 1: "chunk_uneven shards (int (Suc c)) i = Some ?r"
        by (simp only: unfold gs option.map)
      have 2: "concat ?r = drop i shards"
        by (simp add: cat slice_drop)
      have 3: "length ?r = min (length shards - i) (Suc c)"
        using ms len by (simp add: n_def)
      have 4: "\<forall>g \<in> set ?r. (length shards - i) div Suc c \<le> length g
             \<and> length g \<le> ceil_nat (length shards - i) (Suc c) \<and> g \<noteq> []"
      proof
        fix g assume "g \<in> set ?r"
        then consider "g = slice shards i (i + s)" | "g \<in> set gs" by auto
        then show "(length shards - i) div Suc c \<le> length g
             \<and> length g \<le> ceil_nat (length shards - i) (Suc c) \<and> g \<noteq> []"
        proof cases
          case 1
          then have "length g = s" using lsl by simp
          then show ?thesis using fl s1 by (auto simp flip: n_def s_def)
        next
          case 2
          with bnd have "(n - s) div c \<le> length g" "length g \<le> ceil_nat (n - s) c" "g \<noteq> []"
            by auto
          then show ?thesis using dv cl by (simp flip: n_def s_def)
        qed
      qed
      have 5: "sorted_wrt (\<lambda>a b. length b \<le> length a) ?r"
      proof -
        have "\<forall>g \<in> set gs. length g \<le> s"
          using bnd cl by (meson le_trans)
        then show ?thesis using srt lsl by simp
      qed
      from 1 2 3 4 5 show ?thesis by blast
    qed
  qed
qed

lemma chunk_even_spec:
  "0 < sz \<Longrightarrow> length shards - i = k * sz \<Longrightarrow> i \<le> length shards \<Longrightarrow>
   \<exists>gs. chunk_even shards sz i = Some gs \<and> concat gs = drop i shards \<and> length gs = k
      \<and> (\<forall>g \<in> set gs. length g = sz)"
proof (induction k arbitrary: i)
  case 0
  then show ?case by (simp add: chunk_even_done)
next
  case (Suc k)
  then have lt: "i < length shards" and le: "i + sz \<le> length shards"
    and rest: "length shards - (i + sz) = k * sz"
    by (cases "i < length shards"; simp)+
  from Suc.IH [OF Suc.prems(1) rest le] obtain gs where
    gs: "chunk_even shards sz (i + sz) = Some gs" "concat gs = drop (i + sz) shards"
      "length gs = k" "\<forall>g \<in> set gs. length g = sz"
    by blast
  have "chunk_even shards sz i = Some (slice shards i (i + sz) # gs)"
    using lt Suc.prems(1) gs(1) by (subst chunk_even.simps) simp
  then show ?case
    using gs le by (simp add: slice_drop length_slice)
qed


text \<open>
  Claim C2, as amended.  \<open>chunk ids clusters\<close> returns the single group \<open>ids\<close> when
  \<open>clusters < 2\<close>.  Otherwise it returns contiguous, non-empty groups whose concatenation
  is \<open>ids\<close>, whose sizes differ by at most one, earlier groups never smaller than later
  ones; their number is \<open>clusters\<close> when there are at least that many ids and the number
  of ids when there are fewer (no empty group is ever produced).  On \<open>[0..9]\<close> and \<open>3\<close>
  the result is \<open>[[0,1,2,3],[4,5,6],[7,8,9]]\<close>.
\<close>

theorem C2_chunk_amended:
  "(k < 2 \<longrightarrow> chunk ids k = Some [ids])
   \<and> (2 \<le> k \<longrightarrow>
        (\<exists>gs. chunk ids k = Some gs
           \<and> length gs = min (length ids) (nat k)
           \<and> concat gs = ids
           \<and> (\<forall>g \<in> set gs. g \<noteq> [])
           \<and> sorted_wrt (\<lambda>a b. length b \<le> length a) gs
           \<and> (\<forall>a \<in> set gs. \<forall>b \<in> set gs. length a \<le> length b + 1)))
   \<and> chunk [0::nat, 1, 2, 3, 4, 5, 6, 7, 8, 9] 3 = Some [[0, 1, 2, 3], [4, 5, 6], [7, 8, 9]]"
proof (intro conjI impI)
  assume "k < 2"
  then show "chunk ids k = Some [ids]"
    by (simp add: chunk_def)
next
  assume c2: "2 \<le> k"
  define c where "c = nat k"
  have cl: "k = int c" and c1: "1 \<le> c" and c0: "0 < c"
    using c2 by (simp_all add: c_def)
  define n where "n = length ids"
  show "\<exists>gs. chunk ids k = Some gs
           \<and> length gs = min (length ids) (nat k)
           \<and> concat gs = ids
           \<and> (\<forall>g \<in> set gs. g \<noteq> [])
           \<and> sorted_wrt (\<lambda>a b. length b \<le> length a) gs
           \<and> (\<forall>a \<in> set gs. \<forall>b \<in> set gs. length a \<le> length b + 1)"
  proof (cases "n mod c = 0")
    case True
    have md: "int (length ids) mod k = 0"
      using True by (simp add: cl n_def flip: of_nat_mod)
    have dv: "nat (int (length ids) div k) = n div c"
      by (simp add: cl n_def flip: of_nat_div)
    have ch: "chunk ids k = chunk_even ids (n div c) 0"
      using c2 md dv by (simp add: chunk_def)
    show ?thesis
    proof (cases "n = 0")
      case True
      then have "length ids \<le> 0"
        by (simp add: n_def)
      then have "chunk ids k = Some []"
        unfolding ch by (rule chunk_even_done)
      then show ?thesis using True by (simp add: n_def)
    next
      case False
      have nk: "n = c * (n div c)"
        using \<open>n mod c = 0\<close> by auto
      then have pos: "0 < n div c"
        using False by (cases "n div c") auto
      have "length ids - 0 = c * (n div c)"
        using nk by (simp add: n_def)
      from chunk_even_spec [OF pos this] obtain gs where
        gs: "chunk_even ids (n div c) 0 = Some gs" "concat gs = ids" "length gs = c"
          "\<forall>g \<in> set gs. length g = n div c"
        by auto
      have "c \<le> n"
        using nk pos by (metis mult.right_neutral mult_le_mono2 Suc_leI One_nat_def)
      moreover have "sorted_wrt (\<lambda>a b. length b \<le> length a) gs"
        using gs(4) by (simp add: sorted_wrt_iff_nth_less)
      ultimately show ?thesis
        using gs pos by (auto simp: ch c_def n_def)
    qed
  next
    case False
    have md: "int (length ids) mod k \<noteq> 0"
      using False by (simp add: cl n_def flip: of_nat_mod)
    have ch: "chunk ids k = chunk_uneven ids (int c) 0"
      using c2 md by (simp add: chunk_def cl)
    from chunk_uneven_spec [OF c1, of 0 ids] obtain gs where
      gs: "chunk_uneven ids (int c) 0 = Some gs" "concat gs = ids" "length gs = min n c"
        "\<forall>g \<in> set gs. n div c \<le> length g \<and> length g \<le> ceil_nat n c \<and> g \<noteq> []"
        "sorted_wrt (\<lambda>a b. length b \<le> length a) gs"
      by (auto simp: n_def)
    have "ceil_nat n c \<le> n div c + 1"
      by (simp add: ceil_nat_def)
    then have "\<forall>a \<in> set gs. \<forall>b \<in> set gs. length a \<le> length b + 1"
      using gs(4) by (meson add_le_mono1 le_trans)
    then show ?thesis
      using gs by (auto simp: ch c_def n_def)
  qed
next
  show "chunk [0::nat, 1, 2, 3, 4, 5, 6, 7, 8, 9] 3 = Some [[0, 1, 2, 3], [4, 5, 6], [7, 8, 9]]"
    by (simp add: chunk_def chunk_uneven.simps slice_def ceil_div_def)
qed

theorem C2_chunk_amended_witness:
  "(1::int) < 2 \<and> chunk [0::nat, 1, 2] 1 = Some [[0, 1, 2]]
   \<and> (2::int) \<le> 4 \<and> chunk [0::nat, 1, 2, 3, 4, 5, 6, 7, 8, 9] 4
         = Some [[0, 1, 2], [3, 4, 5], [6, 7], [8, 9]]
   \<and> (2::int) \<le> 5 \<and> chunk [0::nat, 1, 2, 3, 4, 5, 6, 7, 8, 9] 5
         = Some [[0, 1], [2, 3], [4, 5], [6, 7], [8, 9]]"
  using C2_chunk_amended [of 1 "[0::nat, 1, 2]"]
    C2_chunk_amended [of 4 "[0::nat, 1, 2, 3, 4, 5, 6, 7, 8, 9]"]
    C2_chunk_amended [of 5 "[0::nat, 1, 2, 3, 4, 5, 6, 7, 8, 9]"]
  by (simp add: chunk_def chunk_uneven.simps chunk_even.simps slice_def ceil_div_def)

text \<open>
  The claim as first stated asks for exactly \<open>clusters\<close> groups whenever \<open>clusters \<ge> 2\<close>.
  Two shards for three k give two groups, and no shard at all gives no group.
\<close>

theorem C2_chunk_counterexample:
  "chunk [0::nat, 1] 3 = Some [[0], [1]] \<and> length [[0::nat], [1]] \<noteq> nat 3
   \<and> chunk ([] :: nat list) 2 = Some [] \<and> length ([] :: nat list list) \<noteq> nat 2"
  by (simp add: chunk_def chunk_uneven.simps chunk_even.simps slice_def ceil_div_def)


subsection \<open>Concurrency groups\<close>

lemma group_step:
  fixes i m :: nat
  assumes m: "1 \<le> m"
  shows "(if int (Suc i) - int (i div m) * int m = int m then int (i div m) + 1 else int (i div m))
       = int (Suc i div m)"
proof -
  define q r where "q = i div m" and "r = i mod m"
  have i: "i = q * m + r" and r: "r < m"
    using m by (simp_all add: q_def r_def)
  show ?thesis
  proof (cases "Suc r = m")
    case True
    then have "Suc i = Suc q * m" using i by simp
    then have "Suc i div m = Suc q" using m by simp
    moreover have "int (Suc i) - int q * int m = int m"
      using \<open>Suc i = Suc q * m\<close> by (simp add: algebra_simps)
    ultimately show ?thesis by (simp flip: q_def)
  next
    case False
    then have "Suc r < m" using r by simp
    have "Suc i = q * m + Suc r" using i by simp
    have "(Suc r + q * m) div m = q + Suc r div m"
      by (rule div_mult_self1) (use m in simp)
    moreover have "Suc r div m = 0"
      using \<open>Suc r < m\<close> by (rule div_less)
    moreover have "Suc i = Suc r + q * m"
      using i by simp
    ultimately have "Suc i div m = q" by (simp only: add_0_right)
    moreover have "int (Suc i) - int q * int m = int (Suc r)"
      using \<open>Suc i = q * m + Suc r\<close> by (simp add: algebra_simps)
    ultimately show ?thesis using False by (simp flip: q_def)
  qed
qed

lemma ccg_loop_spec:
  assumes m: "1 \<le> m"
  shows "i \<le> n \<Longrightarrow> g = (case i of 0 \<Rightarrow> 0 | Suc j \<Rightarrow> int (j div m)) \<Longrightarrow>
     ccg_loop (int m) [i ..< n] g acc = acc @ map (\<lambda>j. (j, int (j div m))) [i ..< n]"
proof (induction "n - i" arbitrary: i g acc)
  case 0
  then show ?case by simp
next
  case (Suc k)
  then have lt: "i < n" by simp
  have g1: "(if int i - g * int m = int m then g + 1 else g) = int (i div m)"
  proof (cases i)
    case 0
    then show ?thesis using Suc.prems(2) m by simp
  next
    case (Suc j)
    with Suc.prems(2) have g: "g = int (j div m)" by simp
    show ?thesis unfolding Suc g by (rule group_step [OF m])
  qed
  have k: "k = n - Suc i" using Suc.hyps(2) by simp
  have "ccg_loop (int m) [Suc i ..< n] (int (i div m)) (acc @ [(i, int (i div m))])
      = (acc @ [(i, int (i div m))]) @ map (\<lambda>j. (j, int (j div m))) [Suc i ..< n]"
    by (rule Suc.hyps(1) [OF k]) (use lt in simp_all)
  then show ?case
    using lt g1 by (simp add: upt_conv_Cons Let_def)
qed

lemma chunkConcurrencyGroups_div:
  assumes "1 \<le> m"
  shows "map_of (chunkConcurrencyGroups (int m) n) i = (if i < n then Some (int (i div m)) else None)"
proof -
  have "chunkConcurrencyGroups (int m) n = map (\<lambda>j. (j, int (j div m))) [0 ..< n]"
    unfolding chunkConcurrencyGroups_def using ccg_loop_spec [OF assms, of 0 n 0 "[]"] by simp
  then show ?thesis
    by (simp add: map_of_map_restrict restrict_map_def)
qed

text \<open>
  Claim C9.  The bitwise test of the "execute" handler and the group computation of
  \<open>chunkConcurrencyGroups\<close> (which puts cluster \<open>i\<close> into group \<open>i div maxConcurrency\<close>)
  disagree: there are a cluster ID and a \<open>maxConcurrency\<close> where the test
  \<open>(clusterID & maxConcurrency) === 0\<close> and "clusterID is the first member of its group",
  \<open>clusterID mod maxConcurrency = 0\<close>, give different results (cluster 1 with
  \<open>maxConcurrency = 2\<close>).
\<close>

theorem C9_bitwise_disagrees:
  "\<exists>clusterID maxConcurrency clusterCount.
      0 < maxConcurrency \<and> clusterID < clusterCount
    \<and> map_of (chunkConcurrencyGroups maxConcurrency clusterCount) clusterID
         = Some (int clusterID div maxConcurrency)
    \<and> group_start_bitwise (int clusterID) maxConcurrency
         \<noteq> (int clusterID mod maxConcurrency = 0)"
proof -
  have "map_of (chunkConcurrencyGroups 2 4) 1 = Some (int 1 div 2)"
    by (simp add: chunkConcurrencyGroups_def upt_conv_Cons)
  moreover have "group_start_bitwise (int 1) 2 \<noteq> (int 1 mod 2 = 0)"
    by (simp add: group_start_bitwise_def)
  ultimately show ?thesis
    by (intro exI [of _ "1::nat"] exI [of _ "2::int"] exI [of _ "4::nat"]) simp
qed


subsection \<open>The round trip of \<open>stringifyJSON\<close> and \<open>parseJSON\<close>\<close>

lemma parse_digits_append:
  "parse_digits b acc (xs @ ys) =
     (case parse_digits b acc xs of None \<Rightarrow> None | Some a \<Rightarrow> parse_digits b a ys)"
  by (induction xs arbitrary: acc) (auto split: option.splits)

lemma digit_val_digit_char: "d < 10 \<Longrightarrow> digit_val (digit_char d) = Some d"
  by (simp add: digit_val_def digit_char_def Let_def)

lemma is_ws_digit_char: "d < 10 \<Longrightarrow> \<not> is_ws (digit_char d)"
  by (auto simp: is_ws_def digit_char_def)

lemma parse_digits10: "parse_digits 10 0 (digits10 n) = Some n"
proof (induction n rule: digits10.induct)
  case (1 n)
  show ?case
  proof (cases "n < 10")
    case True
    then show ?thesis
      by (subst digits10.simps) (simp add: digit_val_digit_char)
  next
    case False
    with 1 have "parse_digits 10 0 (digits10 (n div 10)) = Some (n div 10)" by simp
    then show ?thesis
      using False
      by (subst digits10.simps) (simp add: parse_digits_append digit_val_digit_char)
  qed
qed

lemma is_digit_digit_char: "d < 10 \<Longrightarrow> is_digit (digit_char d)"
  by (simp add: is_digit_def digit_char_def)

lemma digits10_digits: "digits10 n \<noteq> [] \<and> list_all is_digit (digits10 n)"
proof (induction n rule: digits10.induct)
  case (1 n)
  show ?case
  proof (cases "n < 10")
    case True
    then show ?thesis
      by (subst (1 2) digits10.simps) (simp add: is_digit_digit_char)
  next
    case False
    with 1 have "list_all is_digit (digits10 (n div 10))" by simp
    moreover have "is_digit (digit_char (n mod 10))"
      by (simp add: is_digit_digit_char)
    ultimately show ?thesis
      using False by (subst (1 2) digits10.simps) simp
  qed
qed

lemma trim_id:
  assumes "xs \<noteq> []" "\<not> is_ws (hd xs)" "\<not> is_ws (last xs)"
  shows "trim xs = xs"
proof -
  have 1: "dropWhile is_ws xs = xs"
    using assms(1,2) by (cases xs) simp_all
  have "rev xs \<noteq> []" "\<not> is_ws (hd (rev xs))"
    using assms(1,3) by (simp_all add: hd_rev)
  then have 2: "dropWhile is_ws (rev xs) = rev xs"
    by (cases "rev xs") simp_all
  show ?thesis
    by (simp add: trim_def 1 2)
qed

lemma is_digit_not_ws: "is_digit c \<Longrightarrow> \<not> is_ws c"
  by (auto simp: is_digit_def is_ws_def)

lemma take_not_digits:
  assumes "list_all is_digit t" and "\<not> list_all is_digit p"
  shows "take k t \<noteq> p"
proof
  assume "take k t = p"
  moreover have "list_all is_digit (take k t)"
    using assms(1) unfolding list_all_iff by (meson in_set_takeD)
  ultimately show False
    using assms(2) by simp
qed

lemma digits_no_prefix:
  assumes "list_all is_digit t"
  shows "take 2 t \<notin> {''0x'', ''0X''}" "take 2 t \<notin> {''0o'', ''0O''}"
    "take 2 t \<notin> {''0b'', ''0B''}" "take 1 t \<noteq> ''-''" "take 1 t \<noteq> ''+''"
proof -
  have "take 2 t \<noteq> ''0x''" "take 2 t \<noteq> ''0X''"
    by (rule take_not_digits [OF assms], simp add: is_digit_def)+
  then show "take 2 t \<notin> {''0x'', ''0X''}"
    by (simp only: insert_iff empty_iff simp_thms not_False_eq_True)
  have "take 2 t \<noteq> ''0o''" "take 2 t \<noteq> ''0O''"
    by (rule take_not_digits [OF assms], simp add: is_digit_def)+
  then show "take 2 t \<notin> {''0o'', ''0O''}"
    by (simp only: insert_iff empty_iff simp_thms not_False_eq_True)
  have "take 2 t \<noteq> ''0b''" "take 2 t \<noteq> ''0B''"
    by (rule take_not_digits [OF assms], simp add: is_digit_def)+
  then show "take 2 t \<notin> {''0b'', ''0B''}"
    by (simp only: insert_iff empty_iff simp_thms not_False_eq_True)
  show "take 1 t \<noteq> ''-''" "take 1 t \<noteq> ''+''"
    by (rule take_not_digits [OF assms], simp add: is_digit_def)+
qed

lemma BigInt_digits10: "BigInt (digits10 n) = Some (int n)"
proof -
  let ?t = "digits10 n"
  have ne: "?t \<noteq> []" and dg: "list_all is_digit ?t"
    using digits10_digits by auto
  have "is_digit (hd ?t)" "is_digit (last ?t)"
    using ne dg by (simp_all add: list_all_iff)
  then have tr: "trim ?t = ?t"
    using ne by (intro trim_id is_digit_not_ws)
  show ?thesis
    using ne digits_no_prefix [OF dg]
    by (simp add: BigInt_def tr Let_def parse_literal_def parse_digits10 del: insert_iff)
qed

lemma BigInt_minus_digits10: "BigInt (CHR ''-'' # digits10 n) = Some (- int n)"
proof -
  let ?t = "CHR ''-'' # digits10 n"
  have ne: "digits10 n \<noteq> []" and dg: "list_all is_digit (digits10 n)"
    using digits10_digits by auto
  have "is_digit (last (digits10 n))"
    using ne dg by (simp add: list_all_iff)
  then have "\<not> is_ws (last ?t)"
    using ne by (simp add: is_digit_not_ws)
  moreover have "\<not> is_ws (hd ?t)"
    by (simp add: is_ws_def)
  ultimately have tr: "trim ?t = ?t"
    by (intro trim_id) simp_all
  have "take 2 ?t \<notin> {''0x'', ''0X''}" "take 2 ?t \<notin> {''0o'', ''0O''}"
    "take 2 ?t \<notin> {''0b'', ''0B''}"
    by (cases "digits10 n"; simp)+
  then show ?thesis
    using ne
    by (simp add: BigInt_def tr Let_def parse_literal_def parse_digits10 del: insert_iff)
qed

lemma BigInt_bigint_to_string: "BigInt (bigint_to_string n) = Some n"
  by (simp add: bigint_to_string_def BigInt_digits10 BigInt_minus_digits10)


lemma those_map_Some:
  "(\<And>x. x \<in> set xs \<Longrightarrow> f x = Some (g x)) \<Longrightarrow> those (map f xs) = Some (map g xs)"
  by (induction xs) simp_all

lemma prune_undefined: "(prune v = JUndefined) = (v = JUndefined)"
  by (cases v) simp_all

lemma roundtrip_BigInt: "internalize (serialize (replacer (JBigInt n))) = Some (JBigInt n)"
  by (simp add: replacer_def reviver_def startsWith_def BigInt_bigint_to_string)

lemma reviver_undefined: "reviver (JStr ''UNDEFINED::'') = Some JUndefined"
  by (simp add: reviver_def startsWith_def)

lemma reviver_str: "\<not> reserved s \<Longrightarrow> reviver (JStr s) = Some (JStr s)"
  by (simp add: reviver_def reserved_def)

lemma roundtrip_hole: "internalize (serialize (replacer JHole)) = Some JUndefined"
  by (simp add: replacer_def reviver_undefined)

lemma roundtrip_value:
  "clean v \<Longrightarrow> internalize (serialize (replacer v)) = Some (prune v)"
proof (induction v)
  case JUndefined
  show ?case by (simp add: replacer_def reviver_undefined)
next
  case JHole
  then show ?case by simp
next
  case JNull
  show ?case by (simp add: replacer_def reviver_def)
next
  case (JBool b)
  show ?case by (simp add: replacer_def reviver_def)
next
  case (JNum n)
  show ?case by (simp add: replacer_def reviver_def)
next
  case (JStr s)
  then show ?case by (simp add: replacer_def reviver_str)
next
  case (JBigInt n)
  show ?case by (simp add: roundtrip_BigInt)
next
  case (JArr xs)
  let ?g = "\<lambda>x. if x = JHole then JUndefined else prune x"
  have "\<And>x. x \<in> set xs \<Longrightarrow> internalize (serialize (replacer x)) = Some (?g x)"
  proof -
    fix x assume x: "x \<in> set xs"
    show "internalize (serialize (replacer x)) = Some (?g x)"
    proof (cases "x = JHole")
      case True
      then show ?thesis by (simp add: roundtrip_hole)
    next
      case False
      then have "clean x" using JArr.prems x by (auto simp: list_all_iff)
      then show ?thesis using JArr.IH x False by simp
    qed
  qed
  then have "those (map (\<lambda>x. internalize (serialize (replacer x))) xs) = Some (map ?g xs)"
    by (rule those_map_Some)
  moreover have "(if ?g x = JUndefined then JHole else ?g x)
      = (if x = JUndefined then JHole else prune x)" for x :: "'a jsval"
    by (cases "x = JHole") (simp_all add: prune_undefined)
  ultimately show ?case
    by (simp add: replacer_def comp_def reviver_def)
next
  case (JObj fs)
  have "\<And>p. p \<in> set fs \<Longrightarrow>
      (case p of (k, x) \<Rightarrow> map_option (Pair k) (internalize (serialize (replacer x))))
       = Some (case p of (k, x) \<Rightarrow> (k, prune x))"
  proof -
    fix p assume p: "p \<in> set fs"
    obtain k x where kx: "p = (k, x)" by (cases p)
    have "clean x" using JObj.prems p kx by (auto simp: list_all_iff)
    moreover have "x \<in> Basic_BNFs.snds p" by (simp add: kx)
    ultimately have "internalize (serialize (replacer x)) = Some (prune x)"
      using JObj.IH p by blast
    then show "(case p of (k, x) \<Rightarrow> map_option (Pair k) (internalize (serialize (replacer x))))
       = Some (case p of (k, x) \<Rightarrow> (k, prune x))"
      by (simp add: kx)
  qed
  then have "those (map (\<lambda>p. case p of (k, x) \<Rightarrow>
       map_option (Pair k) (internalize (serialize (replacer x)))) fs)
     = Some (map (\<lambda>p. case p of (k, x) \<Rightarrow> (k, prune x)) fs)"
    by (rule those_map_Some)
  then show ?case
    by (simp add: replacer_def comp_def reviver_def case_prod_unfold)
next
  case (JError en hid)
  then show ?case by simp
qed

lemma prune_id: "all_defined v \<Longrightarrow> prune v = v"
proof (induction v)
  case (JArr xs)
  have "map (\<lambda>x. if x = JUndefined then JHole else prune x) xs = xs"
  proof (rule map_idI)
    fix x assume x: "x \<in> set xs"
    then have "x \<noteq> JUndefined" "all_defined x"
      using JArr.prems by (auto simp: list_all_iff)
    then show "(if x = JUndefined then JHole else prune x) = x"
      using JArr.IH x by simp
  qed
  then show ?case by simp
next
  case (JObj fs)
  have "map (\<lambda>(k, v). (k, prune v)) fs = fs"
  proof (rule map_idI)
    fix p assume p: "p \<in> set fs"
    obtain k x where kx: "p = (k, x)" by (cases p)
    have "all_defined x" using JObj.prems p kx by (auto simp: list_all_iff)
    moreover have "x \<in> Basic_BNFs.snds p" by (simp add: kx)
    ultimately have "prune x = x" using JObj.IH p by blast
    then show "(case p of (k, v) \<Rightarrow> (k, prune v)) = p" by (simp add: kx)
  qed
  moreover have "filter (\<lambda>(k, v). v \<noteq> JUndefined) fs = fs"
    using JObj.prems by (auto simp: list_all_iff intro!: filter_True)
  ultimately show ?case by simp
qed simp_all

text \<open>
  Claim C10, as amended.  For every payload none of whose strings starts with
  \<open>BIGINT::\<close> or \<open>UNDEFINED::\<close>, \<open>parseJSON (stringifyJSON payload)\<close> returns the payload
  with every bigint restored as a bigint, an \<open>undefined\<close> root restored as \<open>undefined\<close>,
  every object field whose value is \<open>undefined\<close> left out of its object, and every
  array element that is \<open>undefined\<close> left out of its array, where it leaves a hole (the
  other elements keep their indices); a payload with no such field and no such element
  comes back as it is.  So \<open>[7n, undefined, null]\<close> comes back as \<open>[7n, , null]\<close>, and
  \<open>[7n, , null]\<close> as itself.
\<close>

theorem C10_roundtrip_amended:
  "(clean v \<longrightarrow> parseJSON (stringifyJSON v) = Some (prune v))
   \<and> (clean v \<and> all_defined v \<longrightarrow> parseJSON (stringifyJSON v) = Some v)"
  by (simp add: parseJSON_def stringifyJSON_def roundtrip_value prune_id)

theorem C10_roundtrip_amended_witness:
  "clean (JObj [(''id'', JBigInt (- 1205)), (''tag'', JNull), (''gone'', JUndefined),
                (''list'', JArr [JUndefined, JNum (1::int), JStr ''a'', JBool True])])
   \<and> parseJSON (stringifyJSON
        (JObj [(''id'', JBigInt (- 1205)), (''tag'', JNull), (''gone'', JUndefined),
               (''list'', JArr [JUndefined, JNum (1::int), JStr ''a'', JBool True])]))
     = Some (JObj [(''id'', JBigInt (- 1205)), (''tag'', JNull),
               (''list'', JArr [JHole, JNum 1, JStr ''a'', JBool True])])
   \<and> parseJSON (stringifyJSON (JArr [JBigInt 7, JUndefined, JNull :: int jsval]))
     = Some (JArr [JBigInt 7, JHole, JNull])
   \<and> all_defined (JArr [JBigInt 7, JHole, JNull :: int jsval])
   \<and> parseJSON (stringifyJSON (JArr [JBigInt 7, JHole, JNull :: int jsval]))
     = Some (JArr [JBigInt 7, JHole, JNull])
   \<and> parseJSON (stringifyJSON (JUndefined :: int jsval)) = Some JUndefined"
  using C10_roundtrip_amended
      [of "JObj [(''id'', JBigInt (- 1205)), (''tag'', JNull), (''gone'', JUndefined),
                (''list'', JArr [JUndefined, JNum (1::int), JStr ''a'', JBool True])]"]
    C10_roundtrip_amended [of "JArr [JBigInt 7, JUndefined, JNull :: int jsval]"]
    C10_roundtrip_amended [of "JArr [JBigInt 7, JHole, JNull :: int jsval]"]
    C10_roundtrip_amended [of "JUndefined :: int jsval"]
  by (simp add: reserved_def startsWith_def)

text \<open>
  The claim as first stated covers every JSON-representable payload and has
  \<open>undefined\<close> restored wherever it stands.  A string that starts with one of the tags
  does not come back: \<open>"BIGINT::7"\<close> returns as the bigint \<open>7\<close>, \<open>"UNDEFINED::"\<close> as
  \<open>undefined\<close>, and on \<open>"BIGINT::x"\<close> the call of \<open>BigInt\<close> throws.  An \<open>undefined\<close>
  field does not come back either, nor does an \<open>undefined\<close> element: \<open>{a: undefined}\<close>
  returns as \<open>{}\<close> and \<open>[undefined]\<close> as the array of length 1 with a hole.
\<close>

theorem C10_roundtrip_counterexample:
  "parseJSON (stringifyJSON (JStr ''BIGINT::7'' :: int jsval)) = Some (JBigInt 7)
   \<and> parseJSON (stringifyJSON (JStr ''UNDEFINED::'' :: int jsval)) = Some JUndefined
   \<and> parseJSON (stringifyJSON (JStr ''BIGINT::x'' :: int jsval)) = None
   \<and> parseJSON (stringifyJSON (JObj [(''a'', JUndefined :: int jsval)])) = Some (JObj [])
   \<and> parseJSON (stringifyJSON (JArr [JUndefined :: int jsval])) = Some (JArr [JHole])"
  by (simp add: parseJSON_def stringifyJSON_def replacer_def reviver_def startsWith_def
      BigInt_def trim_def is_ws_def parse_literal_def digit_val_def Let_def)


subsection \<open>The central request proxy\<close>

lemma those_list_all:
  "those (map f xs) = Some ys \<Longrightarrow> (\<And>x y. x \<in> set xs \<Longrightarrow> f x = Some y \<Longrightarrow> P y) \<Longrightarrow> list_all P ys"
proof (induction xs arbitrary: ys)
  case Nil
  then show ?case by simp
next
  case (Cons x xs)
  from Cons.prems(1) obtain y zs where y: "f x = Some y" and zs: "those (map f xs) = Some zs"
    and ys: "ys = y # zs"
    by (auto split: option.splits)
  have "P y"
    using Cons.prems(2) [of x y] y by simp
  moreover have "list_all P zs"
    using zs by (rule Cons.IH) (use Cons.prems(2) in auto)
  ultimately show ?case
    by (simp add: ys)
qed

lemma reviver_error_free: "reviver v = Some w \<Longrightarrow> error_free v \<Longrightarrow> error_free w"
  by (cases v) (auto simp: reviver_def split: if_splits)

lemma internalize_error_free: "internalize j = Some v \<Longrightarrow> error_free v"
proof (induction j arbitrary: v)
  case (Jarr xs)
  from Jarr.prems obtain vs where vs: "those (map internalize xs) = Some vs"
    and r: "reviver (JArr (map (\<lambda>v. if v = JUndefined then JHole else v) vs)) = Some v"
    by (auto split: option.splits)
  have "list_all error_free vs"
    using vs Jarr.IH by (rule those_list_all)
  then have "error_free (JArr (map (\<lambda>v. if v = JUndefined then JHole else v) vs))"
    by (auto simp: list_all_iff)
  then show ?case using r by (auto dest: reviver_error_free)
next
  case (Jobj fs)
  from Jobj.prems obtain kvs where
    kvs: "those (map (\<lambda>(k, x). map_option (Pair k) (internalize x)) fs) = Some kvs"
    and r: "reviver (JObj (filter (\<lambda>(k, v). v \<noteq> JUndefined) kvs)) = Some v"
    by (auto split: option.splits)
  have "list_all (\<lambda>(k, v). error_free v) kvs"
    using kvs
  proof (rule those_list_all)
    fix p y assume p: "p \<in> set fs"
      and y: "(case p of (k, x) \<Rightarrow> map_option (Pair k) (internalize x)) = Some y"
    obtain k x where kx: "p = (k, x)" by (cases p)
    from y kx obtain w where w: "internalize x = Some w" "y = (k, w)" by auto
    have "x \<in> Basic_BNFs.snds p" by (simp add: kx)
    with Jobj.IH p w(1) have "error_free w" by blast
    then show "case y of (k, v) \<Rightarrow> error_free v" by (simp add: w(2))
  qed
  then have "error_free (JObj (filter (\<lambda>(k, v). v \<noteq> JUndefined) kvs))"
    by (simp add: list_all_iff)
  then show ?case using r by (auto dest: reviver_error_free)
qed (auto simp: reviver_def split: if_splits)

lemma get_prop_error_free: "error_free v \<Longrightarrow> error_free (get_prop v k)"
  by (cases v) (auto simp: get_prop_def list_all_iff split: option.splits dest!: map_of_SomeD)

lemma reconstructError_id: "error_free v \<Longrightarrow> reconstructError fresh v = v"
  by (cases v) (simp_all add: reconstructError_def instanceof_Error_def)

lemma central_call_never_Error:
  "central_call fresh outcome = Some (Rejected r) \<Longrightarrow> \<not> instanceof_Error r"
proof -
  assume a: "central_call fresh outcome = Some (Rejected r)"
  then obtain resolved j v where j: "centralApiRequest outcome = (resolved, j)"
    and v: "parseJSON j = Some v" and c: "callback fresh resolved v = Rejected r"
    by (cases "centralApiRequest outcome") (auto simp: central_call_def centralApiResponse_def)
  have ef: "error_free v"
    using v by (simp add: parseJSON_def internalize_error_free)
  then have "error_free (get_prop v ''error'')"
    by (rule get_prop_error_free)
  then have "error_free r"
    using c by (auto simp: callback_def reconstructError_id split: if_splits)
  then show ?thesis
    by (cases r) (simp_all add: instanceof_Error_def)
qed

text \<open>
  Claim C6 asks that the requesting worker's continuation be rejected with a
  reconstructed \<open>Error\<close> object whenever the failure on the orchestrator's side was an
  \<open>Error\<close>.  The code does not do that: \<open>reconstructError\<close> returns whatever is not an
  instance of \<open>Error\<close> as it is, and what \<open>parseJSON\<close> returns never is one
  (\<open>central_call_never_Error\<close>).  Evaluated on a failure with the message
  \<open>Missing Permissions\<close> and the code \<open>50013\<close>: the continuation is rejected with the
  plain object that carries the code, the message, the name and the stack.
\<close>

theorem C6_rejected_with_plain_object:
  "central_call fresh
     (Rejected (JError [(''code'', JNum (50013::int))]
        [(''message'', JStr ''Missing Permissions''), (''name'', JStr ''Error''),
         (''stack'', JStr ''Error: Missing Permissions'')]))
   = Some (Rejected (JObj [(''code'', JNum 50013), (''message'', JStr ''Missing Permissions''),
        (''name'', JStr ''Error''), (''stack'', JStr ''Error: Missing Permissions'')]))
   \<and> \<not> instanceof_Error (JObj [(''code'', JNum (50013::int)),
        (''message'', JStr ''Missing Permissions''),
        (''name'', JStr ''Error''), (''stack'', JStr ''Error: Missing Permissions'')])"
  by (simp add: central_call_def centralApiRequest_def centralApiResponse_def callback_def
      instanceof_Error_def errorToJSON_def get_prop_def stringifyJSON_def parseJSON_def
      replacer_def reviver_def startsWith_def js_truthy_def reconstructError_def)


subsection \<open>The launch of the concurrency groups\<close>

text \<open>
  Claim C1 asks that no cluster of the next concurrency group be sent its \<open>connect\<close>
  before every cluster of the current group has reported \<open>connected\<close>.  The code counts
  the reports of a group in \<open>connectedClusterGroups\<close> and compares the count with the
  size of the group, but it takes the size from \<open>Object.entries\<close> of a \<open>Map\<close>, which is
  empty: the size is always \<open>0\<close> and the first report of a group already starts the
  timer that advances the Queue.  Evaluated for four clusters with \<open>maxConcurrency = 2\<close>
  (groups \<open>{0, 1}\<close> and \<open>{2, 3}\<close>): cluster 0 reports \<open>connected\<close>, the timer elapses,
  and clusters 2 and 3 are sent \<open>connect\<close> while cluster 1 (worker 2) is still launching
  and not in the registry.
\<close>

theorem C1_next_group_sent_early:
  "(let st = run [In_startCluster None, In_launched 1, In_launched 2, In_launched 3, In_launched 4,
                  In_connected 1, In_timer ExecuteTimer] (init 2 4 5 False None)
    in group_of st (Some 0) = Some 0 \<and> group_of st (Some 1) = Some 0
     \<and> group_of st (Some 2) = Some 1 \<and> group_of st (Some 3) = Some 1
     \<and> clusters st = [(0, ClusterRec 0 1 0 0)]
     \<and> map_of (launchingWorkers st) 2 = Some (LCluster (ClusterRec 1 2 0 0))
     \<and> out st = [Send 1 (Connect_cluster 0), Send 2 (Connect_cluster 1),
                  Emit (ClusterReady (ClusterRec 0 1 0 0)), Send 1 LoadCode,
                  Send 3 (Connect_cluster 2), Send 4 (Connect_cluster 3)])"
  by code_simp

subsection \<open>Soft kill\<close>

text \<open>
  Claim C3 asks that a worker that does not acknowledge its \<open>shutdown\<close> before the kill
  timer elapses be force-terminated exactly once, the continuation still being called
  as failed.  For a cluster the code does so: the timer kills the worker and calls
  \<open>fn(true)\<close>, which skips its own kill.  The function stored for a service takes no
  argument and kills again.  Evaluated for one service and for one cluster, each
  launched, connected and then shut down softly: when the kill timer elapses the
  service's worker is killed twice and reported as shut down; the cluster's worker is
  killed once.  When the acknowledgment comes first, the continuation kills the worker
  once and the timer, elapsing later, does nothing more.
\<close>

theorem C3_service_killed_twice:
  "(let st0 = run [In_startService [(''svc'', ''/svc.js'')], In_launched 1, In_connected 1,
                   In_shutdownService ''svc'' False] (init 1 0 5 False (Some [''svc'']));
        st = run [In_timer (KillTimer (QueueItem TService 1 Shutdown))] st0;
        ct0 = run [In_startCluster None, In_launched 1, In_connected 1,
                   In_shutdownCluster 0 False] (init 1 1 5 False None);
        ct = run [In_timer (KillTimer (QueueItem TCluster 1 Shutdown))] ct0;
        sa = run [In_shutdown, In_timer (KillTimer (QueueItem TService 1 Shutdown))] st0;
        ca = run [In_shutdown, In_timer (KillTimer (QueueItem TCluster 1 Shutdown))] ct0
    in softKills st0 = [(1, ShutdownServiceFn 1 (ServiceRec ''svc'' 1 ''/svc.js'') False NoCallback)]
     \<and> queue (q st0) = [QueueItem TService 1 Shutdown]
     \<and> timers st0 = [KillTimer (QueueItem TService 1 Shutdown)]
     \<and> out st = out st0 @ [Kill 1, Kill 1, Emit (ServiceShutdown (ServiceRec ''svc'' 1 ''/svc.js''))]
     \<and> softKills st = [] \<and> queue (q st) = []
     \<and> softKills ct0 = [(1, ShutdownClusterFn 1 (ClusterRec 0 1 0 0) False NoCallback)]
     \<and> queue (q ct0) = [QueueItem TCluster 1 Shutdown]
     \<and> out ct = out ct0 @ [Kill 1]
     \<and> softKills ct = [] \<and> queue (q ct) = []
     \<and> out sa = out st0 @ [Kill 1, Emit (ServiceShutdown (ServiceRec ''svc'' 1 ''/svc.js''))]
     \<and> out ca = out ct0 @ [Emit (ClusterShutdown (ClusterRec 0 1 0 0)), Kill 1])"
  by code_simp

subsection \<open>What the Queue leaves alone\<close>

lemma framed_refl [simp]: "framed st st"
  by (simp add: framed_def)

lemma framed_trans: "framed a b \<Longrightarrow> framed b c \<Longrightarrow> framed a c"
  by (cases a, cases b, cases c) (simp add: framed_def)

lemma framed_upd [simp]:
  "framed st (st\<lparr>q := x\<rparr>)" "framed st (st\<lparr>launchingManager := y\<rparr>)"
  "framed st (st\<lparr>timers := z\<rparr>)" "framed st (st\<lparr>out := u\<rparr>)"
  by (simp_all add: framed_def)

lemma framed_fields:
  assumes "framed st st'"
  shows "clusters st' = clusters st" "services st' = services st"
    "launchingWorkers st' = launchingWorkers st" "softKills st' = softKills st"
    "connectedClusterGroups st' = connectedClusterGroups st"
    "clustersSequentialFailedRestarts st' = clustersSequentialFailedRestarts st"
    "servicesSequentialFailedRestarts st' = servicesSequentialFailedRestarts st"
    "fetches st' = fetches st" "workers st' = workers st" "nextWorkerID st' = nextWorkerID st"
    "maxConcurrency st' = maxConcurrency st" "clusterCount st' = clusterCount st"
    "maxRestarts st' = maxRestarts st" "startServicesTogether st' = startServicesTogether st"
    "servicesToCreate st' = servicesToCreate st" "resharding st' = resharding st"
  using assms by (cases st, cases st', simp add: framed_def)+

lemma framed_send [simp]: "framed st (send w m st)"
  by (simp add: send_def emit_def framed_def)

lemma framed_emit [simp]: "framed st (emit e st)"
  by (simp add: emit_def framed_def)

lemma framed_kill [simp]: "framed st (kill w st)"
  by (simp add: kill_def)

lemma framed_dispatch: "framed st (fst (dispatch qi st))"
  by (cases st) (simp add: dispatch_def framed_def send_def emit_def Let_def split: option.splits)

lemma framed_q_execute: "framed st (q_execute first tag st)"
proof (induction first tag st rule: q_execute.induct)
  case (1 first tag st)
  obtain q1 ev where ex: "execute first tag (q st) = (q1, ev)"
    by (cases "execute first tag (q st)")
  show ?case
  proof (cases ev)
    case Nil
    then show ?thesis
      using ex by (subst q_execute.simps) simp
  next
    case (Cons p es)
    obtain qi prevItem where p: "p = (qi, prevItem)" by (cases p)
    obtain st2 again where d: "dispatch qi (st\<lparr>q := q1\<rparr>) = (st2, again)"
      by (cases "dispatch qi (st\<lparr>q := q1\<rparr>)")
    have f2: "framed st st2"
      using framed_dispatch [of "st\<lparr>q := q1\<rparr>" qi] d
      by (auto intro: framed_trans [OF framed_upd(1)])
    show ?thesis
    proof (cases again)
      case True
      have "framed st2 (q_execute False None st2)"
        using "1.IH" [OF ex [symmetric] Cons p [symmetric] d [symmetric] True] .
      with f2 have "framed st (q_execute False None st2)"
        by (rule framed_trans)
      then show ?thesis
        using ex Cons p d True by (subst q_execute.simps) simp
    next
      case False
      then show ?thesis
        using ex Cons p d f2 by (subst q_execute.simps) simp
    qed
  qed
qed

lemma framed_handle: "framed st (handle qi st)"
proof -
  obtain st2 again where d: "dispatch qi st = (st2, again)"
    by (cases "dispatch qi st")
  have "framed st st2"
    using framed_dispatch [of st qi] d by simp
  then show ?thesis
    using d by (auto simp: handle_def intro: framed_trans framed_q_execute)
qed

lemma framed_q_item: "framed st (q_item x tag st)"
proof -
  obtain q1 ev where ex: "item x tag (q st) = (q1, ev)"
    by (cases "item x tag (q st)")
  show ?thesis
    using ex
    by (auto simp: q_item_def split: list.splits
        intro: framed_trans [OF framed_upd(1) framed_handle])
qed

lemma framed_q_bulkItems: "framed st (q_bulkItems xs tag st)"
proof -
  obtain q1 ev where ex: "bulkItems xs tag (q st) = (q1, ev)"
    by (cases "bulkItems xs tag (q st)")
  show ?thesis
    using ex
    by (auto simp: q_bulkItems_def split: list.splits
        intro: framed_trans [OF framed_upd(1) framed_handle])
qed


subsection \<open>Restart backoff\<close>

lemma restartWorker_cluster_hard:
  assumes "find_cluster w (clusters st) = Some c"
  shows "\<exists>st1. restartWorker w False False st
      = (Some (QueueItem TCluster (nextWorkerID st) (Connect_cluster (clusterID c))), st1)
    \<and> nextWorkerID st1 = Suc (nextWorkerID st)
    \<and> workers st1 = workers st @ [nextWorkerID st]
    \<and> map_of (launchingWorkers st1) (nextWorkerID st)
        = Some (LCluster (ClusterRec (clusterID c) (nextWorkerID st) (firstShardID c) (lastShardID c)))
    \<and> map_of (clusters st1) (clusterID c)
        = Some (ClusterRec (clusterID c) (nextWorkerID st) (firstShardID c) (lastShardID c))
    \<and> clustersSequentialFailedRestarts st1 = clustersSequentialFailedRestarts st
    \<and> servicesSequentialFailedRestarts st1 = servicesSequentialFailedRestarts st"
  using assms by (simp add: restartWorker_def fork_def Let_def update_conv')

lemma restartWorker_service_hard:
  assumes "find_cluster w (clusters st) = None" "find_service w (services st) = Some s"
  shows "\<exists>st1. restartWorker w False False st
      = (Some (QueueItem TService (nextWorkerID st) (Connect_service (serviceName s))), st1)
    \<and> nextWorkerID st1 = Suc (nextWorkerID st)
    \<and> workers st1 = workers st @ [nextWorkerID st]
    \<and> map_of (launchingWorkers st1) (nextWorkerID st)
        = Some (LService (ServiceRec (serviceName s) (nextWorkerID st) (path s)))
    \<and> map_of (services st1) (serviceName s)
        = Some (ServiceRec (serviceName s) (nextWorkerID st) (path s))
    \<and> clustersSequentialFailedRestarts st1 = clustersSequentialFailedRestarts st
    \<and> servicesSequentialFailedRestarts st1 = servicesSequentialFailedRestarts st"
  using assms by (simp add: restartWorker_def fork_def Let_def update_conv')

lemma limit_reached_fields:
  "nextWorkerID (limit_reached w st) = nextWorkerID st"
  "workers (limit_reached w st) = workers st"
  "clusters (limit_reached w st) = clusters st"
  "services (limit_reached w st) = services st"
  "clustersSequentialFailedRestarts (limit_reached w st) = clustersSequentialFailedRestarts st"
  "servicesSequentialFailedRestarts (limit_reached w st) = servicesSequentialFailedRestarts st"
  by (simp_all add: limit_reached_def emit_def framed_fields [OF framed_q_execute]
      split: list.splits)

lemma limit_reached_queue:
  "queue (q st) = qi # rest \<Longrightarrow> i_workerID qi = w \<Longrightarrow> limit_reached w st = q_execute False None st"
  "queue (q st) = qi # rest \<Longrightarrow> i_workerID qi \<noteq> w \<Longrightarrow> limit_reached w st = st"
  by (simp_all add: limit_reached_def)


lemma exit_cluster_below:
  assumes "map_of (softKills st) w = None" "maxRestarts st \<noteq> - 1"
    "find_cluster w (clusters st) = Some c"
    "int (counter (clustersSequentialFailedRestarts st) (clusterID c)) < maxRestarts st"
  shows "map_of (clustersSequentialFailedRestarts (exit_handler w st)) (clusterID c)
          = Some (counter (clustersSequentialFailedRestarts st) (clusterID c) + 1)"
    and "nextWorkerID (exit_handler w st) = Suc (nextWorkerID st)"
    and "map_of (launchingWorkers (exit_handler w st)) (nextWorkerID st)
          = Some (LCluster (ClusterRec (clusterID c) (nextWorkerID st) (firstShardID c) (lastShardID c)))"
proof -
  let ?n = "counter (clustersSequentialFailedRestarts st) (clusterID c)"
  let ?st = "st\<lparr>workers := removeAll w (workers st)\<rparr>"
  let ?s1 = "?st\<lparr>clustersSequentialFailedRestarts :=
                AList.update (clusterID c) (?n + 1) (clustersSequentialFailedRestarts ?st)\<rparr>"
  have eh: "exit_handler w st = restart_after_exit w ?s1"
    using assms by (simp add: exit_handler_def Let_def counter_def split: option.splits)
  have "find_cluster w (clusters ?s1) = Some c"
    using assms(3) by simp
  from restartWorker_cluster_hard [OF this] obtain st1 where
    r: "restartWorker w False False ?s1
          = (Some (QueueItem TCluster (nextWorkerID st) (Connect_cluster (clusterID c))), st1)"
    and f: "nextWorkerID st1 = Suc (nextWorkerID st)"
      "map_of (launchingWorkers st1) (nextWorkerID st)
        = Some (LCluster (ClusterRec (clusterID c) (nextWorkerID st) (firstShardID c) (lastShardID c)))"
      "clustersSequentialFailedRestarts st1 = clustersSequentialFailedRestarts ?s1"
    by auto
  have e2: "exit_handler w st
      = q_item (QueueItem TCluster (nextWorkerID st) (Connect_cluster (clusterID c))) None st1"
    unfolding eh restart_after_exit_def r by simp
  note fr = framed_fields [OF framed_q_item [where st = st1
        and x = "QueueItem TCluster (nextWorkerID st) (Connect_cluster (clusterID c))" and tag = None]]
  show "map_of (clustersSequentialFailedRestarts (exit_handler w st)) (clusterID c) = Some (?n + 1)"
    by (simp add: e2 fr f update_conv')
  show "nextWorkerID (exit_handler w st) = Suc (nextWorkerID st)"
    by (simp add: e2 fr f)
  show "map_of (launchingWorkers (exit_handler w st)) (nextWorkerID st)
          = Some (LCluster (ClusterRec (clusterID c) (nextWorkerID st) (firstShardID c) (lastShardID c)))"
    by (simp add: e2 fr f)
qed

lemma exit_cluster_limit:
  assumes "map_of (softKills st) w = None" "maxRestarts st \<noteq> - 1"
    "find_cluster w (clusters st) = Some c"
    "maxRestarts st \<le> int (counter (clustersSequentialFailedRestarts st) (clusterID c))"
  shows "exit_handler w st
      = limit_reached w (st\<lparr>workers := removeAll w (workers st),
            clustersSequentialFailedRestarts :=
              AList.delete (clusterID c) (clustersSequentialFailedRestarts st)\<rparr>)"
  using assms by (simp add: exit_handler_def Let_def counter_def split: option.splits)

lemma exit_service_below:
  assumes "map_of (softKills st) w = None" "maxRestarts st \<noteq> - 1"
    "find_cluster w (clusters st) = None" "find_service w (services st) = Some s"
    "int (counter (servicesSequentialFailedRestarts st) (serviceName s)) < maxRestarts st"
  shows "map_of (servicesSequentialFailedRestarts (exit_handler w st)) (serviceName s)
          = Some (counter (servicesSequentialFailedRestarts st) (serviceName s) + 1)"
    and "nextWorkerID (exit_handler w st) = Suc (nextWorkerID st)"
    and "map_of (launchingWorkers (exit_handler w st)) (nextWorkerID st)
          = Some (LService (ServiceRec (serviceName s) (nextWorkerID st) (path s)))"
proof -
  let ?n = "counter (servicesSequentialFailedRestarts st) (serviceName s)"
  let ?st = "st\<lparr>workers := removeAll w (workers st)\<rparr>"
  let ?s1 = "?st\<lparr>servicesSequentialFailedRestarts :=
                AList.update (serviceName s) (?n + 1) (servicesSequentialFailedRestarts ?st)\<rparr>"
  have eh: "exit_handler w st = restart_after_exit w ?s1"
    using assms by (simp add: exit_handler_def Let_def counter_def split: option.splits)
  have "find_cluster w (clusters ?s1) = None" "find_service w (services ?s1) = Some s"
    using assms(3,4) by simp_all
  from restartWorker_service_hard [OF this] obtain st1 where
    r: "restartWorker w False False ?s1
          = (Some (QueueItem TService (nextWorkerID st) (Connect_service (serviceName s))), st1)"
    and f: "nextWorkerID st1 = Suc (nextWorkerID st)"
      "map_of (launchingWorkers st1) (nextWorkerID st)
        = Some (LService (ServiceRec (serviceName s) (nextWorkerID st) (path s)))"
      "servicesSequentialFailedRestarts st1 = servicesSequentialFailedRestarts ?s1"
    by auto
  have e2: "exit_handler w st
      = q_item (QueueItem TService (nextWorkerID st) (Connect_service (serviceName s))) None st1"
    unfolding eh restart_after_exit_def r by simp
  note fr = framed_fields [OF framed_q_item [where st = st1
        and x = "QueueItem TService (nextWorkerID st) (Connect_service (serviceName s))" and tag = None]]
  show "map_of (servicesSequentialFailedRestarts (exit_handler w st)) (serviceName s) = Some (?n + 1)"
    by (simp add: e2 fr f update_conv')
  show "nextWorkerID (exit_handler w st) = Suc (nextWorkerID st)"
    by (simp add: e2 fr f)
  show "map_of (launchingWorkers (exit_handler w st)) (nextWorkerID st)
          = Some (LService (ServiceRec (serviceName s) (nextWorkerID st) (path s)))"
    by (simp add: e2 fr f)
qed

lemma exit_service_limit:
  assumes "map_of (softKills st) w = None" "maxRestarts st \<noteq> - 1"
    "find_cluster w (clusters st) = None" "find_service w (services st) = Some s"
    "maxRestarts st \<le> int (counter (servicesSequentialFailedRestarts st) (serviceName s))"
  shows "exit_handler w st
      = limit_reached w (st\<lparr>workers := removeAll w (workers st),
            servicesSequentialFailedRestarts :=
              AList.delete (serviceName s) (servicesSequentialFailedRestarts st)\<rparr>)"
  using assms by (simp add: exit_handler_def Let_def counter_def split: option.splits)

lemma exit_unknown:
  assumes "map_of (softKills st) w = None"
    "find_cluster w (clusters st) = None" "find_service w (services st) = None"
  shows "exit_handler w st = st\<lparr>workers := removeAll w (workers st)\<rparr>"
  using assms by (simp add: exit_handler_def Let_def restart_after_exit_def restartWorker_def)

lemma exit_cluster_unlimited:
  assumes "map_of (softKills st) w = None" "maxRestarts st = - 1"
    "find_cluster w (clusters st) = Some c"
  shows "clustersSequentialFailedRestarts (exit_handler w st) = clustersSequentialFailedRestarts st"
    and "nextWorkerID (exit_handler w st) = Suc (nextWorkerID st)"
    and "map_of (launchingWorkers (exit_handler w st)) (nextWorkerID st)
          = Some (LCluster (ClusterRec (clusterID c) (nextWorkerID st) (firstShardID c) (lastShardID c)))"
proof -
  let ?st = "st\<lparr>workers := removeAll w (workers st)\<rparr>"
  have eh: "exit_handler w st = restart_after_exit w ?st"
    using assms by (simp add: exit_handler_def Let_def)
  have "find_cluster w (clusters ?st) = Some c"
    using assms(3) by simp
  from restartWorker_cluster_hard [OF this] obtain st1 where
    r: "restartWorker w False False ?st
          = (Some (QueueItem TCluster (nextWorkerID st) (Connect_cluster (clusterID c))), st1)"
    and f: "nextWorkerID st1 = Suc (nextWorkerID st)"
      "map_of (launchingWorkers st1) (nextWorkerID st)
        = Some (LCluster (ClusterRec (clusterID c) (nextWorkerID st) (firstShardID c) (lastShardID c)))"
      "clustersSequentialFailedRestarts st1 = clustersSequentialFailedRestarts st"
    by auto
  have e2: "exit_handler w st
      = q_item (QueueItem TCluster (nextWorkerID st) (Connect_cluster (clusterID c))) None st1"
    unfolding eh restart_after_exit_def r by simp
  note fr = framed_fields [OF framed_q_item [where st = st1
        and x = "QueueItem TCluster (nextWorkerID st) (Connect_cluster (clusterID c))" and tag = None]]
  show "clustersSequentialFailedRestarts (exit_handler w st) = clustersSequentialFailedRestarts st"
    by (simp add: e2 fr f)
  show "nextWorkerID (exit_handler w st) = Suc (nextWorkerID st)"
    by (simp add: e2 fr f)
  show "map_of (launchingWorkers (exit_handler w st)) (nextWorkerID st)
          = Some (LCluster (ClusterRec (clusterID c) (nextWorkerID st) (firstShardID c) (lastShardID c)))"
    by (simp add: e2 fr f)
qed

lemma exit_service_unlimited:
  assumes "map_of (softKills st) w = None" "maxRestarts st = - 1"
    "find_cluster w (clusters st) = None" "find_service w (services st) = Some s"
  shows "servicesSequentialFailedRestarts (exit_handler w st) = servicesSequentialFailedRestarts st"
    and "nextWorkerID (exit_handler w st) = Suc (nextWorkerID st)"
    and "map_of (launchingWorkers (exit_handler w st)) (nextWorkerID st)
          = Some (LService (ServiceRec (serviceName s) (nextWorkerID st) (path s)))"
proof -
  let ?st = "st\<lparr>workers := removeAll w (workers st)\<rparr>"
  have eh: "exit_handler w st = restart_after_exit w ?st"
    using assms by (simp add: exit_handler_def Let_def)
  have "find_cluster w (clusters ?st) = None" "find_service w (services ?st) = Some s"
    using assms(3,4) by simp_all
  from restartWorker_service_hard [OF this] obtain st1 where
    r: "restartWorker w False False ?st
          = (Some (QueueItem TService (nextWorkerID st) (Connect_service (serviceName s))), st1)"
    and f: "nextWorkerID st1 = Suc (nextWorkerID st)"
      "map_of (launchingWorkers st1) (nextWorkerID st)
        = Some (LService (ServiceRec (serviceName s) (nextWorkerID st) (path s)))"
      "servicesSequentialFailedRestarts st1 = servicesSequentialFailedRestarts st"
    by auto
  have e2: "exit_handler w st
      = q_item (QueueItem TService (nextWorkerID st) (Connect_service (serviceName s))) None st1"
    unfolding eh restart_after_exit_def r by simp
  note fr = framed_fields [OF framed_q_item [where st = st1
        and x = "QueueItem TService (nextWorkerID st) (Connect_service (serviceName s))" and tag = None]]
  show "servicesSequentialFailedRestarts (exit_handler w st) = servicesSequentialFailedRestarts st"
    by (simp add: e2 fr f)
  show "nextWorkerID (exit_handler w st) = Suc (nextWorkerID st)"
    by (simp add: e2 fr f)
  show "map_of (launchingWorkers (exit_handler w st)) (nextWorkerID st)
          = Some (LService (ServiceRec (serviceName s) (nextWorkerID st) (path s)))"
    by (simp add: e2 fr f)
qed


lemma codeLoaded_clears:
  "find_cluster w (clusters st) = Some c \<Longrightarrow>
     map_of (clustersSequentialFailedRestarts (codeLoaded w st)) (clusterID c) = None"
  "find_cluster w (clusters st) = None \<Longrightarrow> find_service w (services st) = Some s \<Longrightarrow>
     map_of (servicesSequentialFailedRestarts (codeLoaded w st)) (serviceName s) = None"
  by (simp_all add: codeLoaded_def delete_conv')






subsection \<open>Targeted fetch\<close>

lemma sendReturn_fields [simp]:
  "fetches (sendReturn uuid i v st) = fetches st" "timers (sendReturn uuid i v st) = timers st"
  "workers (sendReturn uuid i v st) = workers st" "clusters (sendReturn uuid i v st) = clusters st"
  "launchingWorkers (sendReturn uuid i v st) = launchingWorkers st"
  by (simp_all add: sendReturn_def send_def emit_def split: requester.splits)

lemma sendReturn_out:
  "out (sendReturn uuid i v st) = (if can_answer uuid st then out st @ [answer uuid i v] else out st)"
  by (simp add: sendReturn_def send_def emit_def can_answer_def answer_def split: requester.splits)

lemma nulls_sendReturn_Some [simp]: "nulls key (sendReturn uuid i (Some x) st) = nulls key st"
  by (simp add: nulls_def sendReturn_out answer_def split: requester.splits)

lemma nulls_sendReturn_None:
  "nulls (i, uuid) (sendReturn uuid i None st) = (if can_answer uuid st then nulls (i, uuid) st + 1 else nulls (i, uuid) st)"
  by (simp add: nulls_def sendReturn_out)

lemma nulls_upd [simp]:
  "nulls key (st\<lparr>fetches := f\<rparr>) = nulls key st" "nulls key (st\<lparr>timers := t\<rparr>) = nulls key st"
  by (simp_all add: nulls_def)

lemma can_answer_upd [simp]:
  "can_answer uuid (st\<lparr>fetches := f\<rparr>) = can_answer uuid st"
  "can_answer uuid (st\<lparr>timers := t\<rparr>) = can_answer uuid st"
  "can_answer uuid (st\<lparr>out := ou\<rparr>) = can_answer uuid st"
  by (simp_all add: can_answer_def split: requester.splits)

lemma can_answer_sendReturn [simp]: "can_answer u (sendReturn uuid i v st) = can_answer u st"
  by (simp add: can_answer_def split: requester.splits)

text \<open>One step of a reply or the timeout, by whether the entry is there.\<close>

lemma step_entry_absent_nulls:
  assumes "map_of (fetches st) key = None" "reply_or_timeout key inp"
  shows "map_of (fetches (step inp st)) key = None" "nulls key (step inp st) = nulls key st"
proof -
  obtain i uuid where key: "key = (i, uuid)" by (cases key)
  show "map_of (fetches (step inp st)) key = None" "nulls key (step inp st) = nulls key st"
    using assms
    by (cases inp; simp add: key ipcReturn_def fire_def fetch_timer_def Let_def delete_conv'
        split: option.splits)+
qed


lemma step_entry_present:
  assumes "map_of (fetches st) key \<noteq> None" "reply_or_timeout key inp"
  shows "nulls key (step inp st) = nulls key st
       \<or> (nulls key (step inp st) = nulls key st + 1 \<and> map_of (fetches (step inp st)) key = None)"
proof -
  obtain i uuid where key: "key = (i, uuid)" by (cases key)
  show ?thesis
  proof (cases inp)
    case (In_return u j v)
    with assms(2) have uj: "u = uuid" "j = i" by (simp_all add: key)
    from assms(1) obtain f where f: "map_of (fetches st) (i, uuid) = Some f"
      by (auto simp: key)
    show ?thesis
    proof (cases v)
      case None
      let ?last = "checked f + 1 = length (clusters st)
          + length (filter (\<lambda>l. case l of LCluster c \<Rightarrow> True | LService s \<Rightarrow> False)
              (map snd (launchingWorkers st)))"
      show ?thesis
      proof (cases ?last)
        case True
        then have "step inp st
            = (sendReturn uuid i None st)\<lparr>fetches := AList.delete (i, uuid) (fetches st)\<rparr>"
          by (simp add: In_return uj None ipcReturn_def f Let_def)
        then show ?thesis
          by (simp add: key nulls_sendReturn_None delete_conv')
      next
        case False
        then have "step inp st
            = st\<lparr>fetches := AList.update (i, uuid) (f\<lparr>checked := checked f + 1\<rparr>) (fetches st)\<rparr>"
          by (simp add: In_return uj None ipcReturn_def f Let_def)
        then show ?thesis
          by (simp add: key)
      qed
    next
      case (Some x)
      then show ?thesis
        by (simp add: In_return uj key ipcReturn_def Let_def)
    qed
  next
    case (In_timer t)
    with assms(2) have t: "t = FetchTimer key" by simp
    show ?thesis
      using assms(1)
      by (auto simp: In_timer t key fire_def fetch_timer_def Let_def nulls_def send_def emit_def
          answer_def delete_conv' split: requester.splits)
  qed (use assms(2) in simp_all)
qed

lemma run_Cons: "run (inp # ins) st = run ins (step inp st)"
  by (simp add: run_def)

lemma run_Nil: "run [] st = st"
  by (simp add: run_def)

lemma novalue_step_present:
  assumes "map_of (fetches st) (i, uuid) \<noteq> None" "can_answer uuid st"
  shows "(map_of (fetches (ipcReturn uuid i None st)) (i, uuid) = None
          \<and> nulls (i, uuid) (ipcReturn uuid i None st) = nulls (i, uuid) st + 1)
       \<or> (map_of (fetches (ipcReturn uuid i None st)) (i, uuid) \<noteq> None
          \<and> nulls (i, uuid) (ipcReturn uuid i None st) = nulls (i, uuid) st
          \<and> timers (ipcReturn uuid i None st) = timers st
          \<and> can_answer uuid (ipcReturn uuid i None st))"
  using assms
  by (auto simp: ipcReturn_def Let_def nulls_sendReturn_None delete_conv' update_conv'
      can_answer_def split: requester.splits)

lemma timeout_step_present:
  assumes "map_of (fetches st) key \<noteq> None" "FetchTimer key \<in> set (timers st)"
  shows "map_of (fetches (fire (FetchTimer key) st)) key = None"
    "nulls key (fire (FetchTimer key) st) = nulls key st + 1"
  using assms
  by (cases key; auto simp: fire_def fetch_timer_def Let_def nulls_def send_def emit_def
      answer_def delete_conv' split: requester.splits)+

lemma fetch_sends_frame:
  fixes opn i uuid
  defines "g \<equiv> (\<lambda>k s. case map_of (clusters s) k of
                            None \<Rightarrow> s
                          | Some c \<Rightarrow> if c_workerID c \<in> set (workers s)
                                      then send (c_workerID c) (Fetch opn i uuid) s else s)"
  shows "fetches (fold g ids s) = fetches s \<and> timers (fold g ids s) = timers s
       \<and> workers (fold g ids s) = workers s \<and> nulls key (fold g ids s) = nulls key s"
proof (induction ids arbitrary: s)
  case Nil
  then show ?case by simp
next
  case (Cons k ids)
  have "fetches (g k s) = fetches s \<and> timers (g k s) = timers s
       \<and> workers (g k s) = workers s \<and> nulls key (g k s) = nulls key s"
    by (simp add: g_def send_def emit_def nulls_def answer_def split: option.splits requester.splits)
  then show ?case
    using Cons.IH [of "g k s"] by simp
qed

lemma fetchInfo_facts:
  "map_of (fetches (fetchInfo opn i uuid st)) (i, uuid) \<noteq> None"
  "FetchTimer (i, uuid) \<in> set (timers (fetchInfo opn i uuid st))"
  "workers (fetchInfo opn i uuid st) = workers st"
  "nulls key (fetchInfo opn i uuid st) = nulls key st"
  by (simp_all add: fetchInfo_def Let_def fetch_sends_frame update_conv')

lemma clusters_asked_upd [simp]:
  "clusters_asked (s\<lparr>fetches := x\<rparr>) = clusters_asked s"
  by (simp add: clusters_asked_def)

lemma run_append: "run (xs @ ys) st = run ys (run xs st)"
  by (simp add: run_def)

lemma novalue_counts:
  "map_of (fetches s) (i, uuid) = Some f \<Longrightarrow> checked f + k < clusters_asked s \<Longrightarrow>
     map_of (fetches (run (replicate k (In_return uuid i None)) s)) (i, uuid)
       = Some (f\<lparr>checked := checked f + k\<rparr>)
     \<and> out (run (replicate k (In_return uuid i None)) s) = out s
     \<and> workers (run (replicate k (In_return uuid i None)) s) = workers s
     \<and> clusters_asked (run (replicate k (In_return uuid i None)) s) = clusters_asked s"
proof (induction k arbitrary: s f)
  case 0
  then show ?case by (simp add: run_Nil)
next
  case (Suc k)
  let ?f1 = "f\<lparr>checked := checked f + 1\<rparr>"
  let ?s1 = "s\<lparr>fetches := AList.update (i, uuid) ?f1 (fetches s)\<rparr>"
  have ne: "checked f + 1 \<noteq> clusters_asked s"
    using Suc.prems(2) by simp
  have s1: "ipcReturn uuid i None s = ?s1"
    using Suc.prems(1) ne by (simp add: ipcReturn_def Let_def clusters_asked_def)
  have a: "map_of (fetches ?s1) (i, uuid) = Some ?f1"
    by (simp add: update_conv')
  have b: "checked ?f1 + k < clusters_asked ?s1"
    using Suc.prems(2) by simp
  from Suc.IH [OF a b] show ?case
    by (simp add: run_Cons s1)
qed

lemma novalue_resolves:
  assumes "map_of (fetches s) (i, uuid) = Some f" and "checked f + 1 = clusters_asked s"
  shows "map_of (fetches (ipcReturn uuid i None s)) (i, uuid) = None"
    and "nulls (i, uuid) (ipcReturn uuid i None s)
          = (if can_answer uuid s then nulls (i, uuid) s + 1 else nulls (i, uuid) s)"
  using assms
  by (simp_all add: ipcReturn_def Let_def clusters_asked_def delete_conv' nulls_sendReturn_None)

lemma fetchInfo_entry:
  "map_of (fetches (fetchInfo opn i uuid st)) (i, uuid)
     = Some \<lparr>f_UUID = uuid, f_op = opn, f_id = i, checked = 0\<rparr>"
  by (simp add: fetchInfo_def Let_def fetch_sends_frame update_conv')

lemma fetch_sends_registry:
  "clusters (fold (\<lambda>k s. case map_of (clusters s) k of
                            None \<Rightarrow> s
                          | Some c \<Rightarrow> if c_workerID c \<in> set (workers s)
                                      then send (c_workerID c) m s else s) ids s) = clusters s
   \<and> launchingWorkers (fold (\<lambda>k s. case map_of (clusters s) k of
                            None \<Rightarrow> s
                          | Some c \<Rightarrow> if c_workerID c \<in> set (workers s)
                                      then send (c_workerID c) m s else s) ids s) = launchingWorkers s"
  by (induction ids arbitrary: s) (simp_all add: send_def emit_def split: option.splits)

lemma fetchInfo_asked: "clusters_asked (fetchInfo opn i uuid st) = clusters_asked st"
  by (simp add: fetchInfo_def Let_def clusters_asked_def fetch_sends_registry)

lemma can_answer_workers: "workers s' = workers s \<Longrightarrow> can_answer uuid s' = can_answer uuid s"
  by (simp add: can_answer_def split: requester.splits)

lemma nulls_out: "out s' = out s \<Longrightarrow> nulls key s' = nulls key s"
  by (simp add: nulls_def)

lemma fetch_novalue_before:
  assumes "k < clusters_asked st"
  shows "nulls (i, uuid) (run (replicate k (In_return uuid i None)) (fetchInfo opn i uuid st))
          = nulls (i, uuid) st"
    and "map_of (fetches (run (replicate k (In_return uuid i None)) (fetchInfo opn i uuid st))) (i, uuid)
          = Some \<lparr>f_UUID = uuid, f_op = opn, f_id = i, checked = k\<rparr>"
    and "workers (run (replicate k (In_return uuid i None)) (fetchInfo opn i uuid st)) = workers st"
    and "clusters_asked (run (replicate k (In_return uuid i None)) (fetchInfo opn i uuid st))
          = clusters_asked st"
proof -
  let ?s0 = "fetchInfo opn i uuid st"
  let ?f0 = "\<lparr>f_UUID = uuid, f_op = opn, f_id = i, checked = 0\<rparr>"
  have "checked ?f0 + k < clusters_asked ?s0"
    using assms by (simp add: fetchInfo_asked)
  from novalue_counts [OF fetchInfo_entry this]
  have 1: "map_of (fetches (run (replicate k (In_return uuid i None)) ?s0)) (i, uuid)
        = Some (?f0\<lparr>checked := checked ?f0 + k\<rparr>)"
    and 2: "out (run (replicate k (In_return uuid i None)) ?s0) = out ?s0"
    and 3: "workers (run (replicate k (In_return uuid i None)) ?s0) = workers ?s0"
    and 4: "clusters_asked (run (replicate k (In_return uuid i None)) ?s0) = clusters_asked ?s0"
    by blast+
  show "nulls (i, uuid) (run (replicate k (In_return uuid i None)) ?s0) = nulls (i, uuid) st"
    using nulls_out [OF 2] by (simp add: fetchInfo_facts)
  show "map_of (fetches (run (replicate k (In_return uuid i None)) ?s0)) (i, uuid)
          = Some \<lparr>f_UUID = uuid, f_op = opn, f_id = i, checked = k\<rparr>"
    using 1 by simp
  show "workers (run (replicate k (In_return uuid i None)) ?s0) = workers st"
    using 3 by (simp add: fetchInfo_facts)
  show "clusters_asked (run (replicate k (In_return uuid i None)) ?s0) = clusters_asked st"
    using 4 by (simp add: fetchInfo_asked)
qed

lemma fetch_novalue_all:
  assumes "0 < clusters_asked st" and "can_answer uuid st"
  shows "nulls (i, uuid)
           (run (replicate (clusters_asked st) (In_return uuid i None)) (fetchInfo opn i uuid st))
          = nulls (i, uuid) st + 1"
    and "map_of (fetches
           (run (replicate (clusters_asked st) (In_return uuid i None)) (fetchInfo opn i uuid st)))
           (i, uuid) = None"
proof -
  obtain k where k: "clusters_asked st = Suc k"
    using assms(1) by (cases "clusters_asked st") simp_all
  let ?s = "run (replicate k (In_return uuid i None)) (fetchInfo opn i uuid st)"
  have lt: "k < clusters_asked st"
    by (simp add: k)
  note b = fetch_novalue_before [OF lt, where i = i and uuid = uuid and opn = opn]
  have r: "run (replicate (clusters_asked st) (In_return uuid i None)) (fetchInfo opn i uuid st)
      = ipcReturn uuid i None ?s"
  proof -
    have "replicate (Suc k) (In_return uuid i None)
        = replicate k (In_return uuid i None) @ [In_return uuid i None]"
      by (simp add: replicate_append_same)
    then show ?thesis
      by (simp only: k run_append run_Cons run_Nil step.simps)
  qed
  have c: "checked \<lparr>f_UUID = uuid, f_op = opn, f_id = i, checked = k\<rparr> + 1 = clusters_asked ?s"
    by (simp add: b(4) k)
  have ca: "can_answer uuid ?s"
    using assms(2) can_answer_workers [OF b(3)] by simp
  show "nulls (i, uuid)
           (run (replicate (clusters_asked st) (In_return uuid i None)) (fetchInfo opn i uuid st))
          = nulls (i, uuid) st + 1"
    unfolding r using novalue_resolves(2) [OF b(2) c] ca b(1) by simp
  show "map_of (fetches
           (run (replicate (clusters_asked st) (In_return uuid i None)) (fetchInfo opn i uuid st)))
           (i, uuid) = None"
    unfolding r using novalue_resolves(1) [OF b(2) c] by simp
qed


lemma keeps_refl [simp]: "keeps W key s s"
  by (simp add: keeps_def)

lemma keeps_trans: "keeps W key a b \<Longrightarrow> keeps W key b c \<Longrightarrow> keeps W key a c"
  unfolding keeps_def by auto

lemma keeps_upd:
  "keeps W key s (s\<lparr>clusters := a\<rparr>)" "keeps W key s (s\<lparr>services := b\<rparr>)"
  "keeps W key s (s\<lparr>launchingWorkers := c\<rparr>)" "keeps W key s (s\<lparr>softKills := d\<rparr>)"
  "keeps W key s (s\<lparr>connectedClusterGroups := e\<rparr>)"
  "keeps W key s (s\<lparr>clustersSequentialFailedRestarts := f\<rparr>)"
  "keeps W key s (s\<lparr>servicesSequentialFailedRestarts := g\<rparr>)"
  "keeps W key s (s\<lparr>nextWorkerID := h\<rparr>)" "keeps W key s (s\<lparr>servicesToCreate := j\<rparr>)"
  "keeps W key s (s\<lparr>workers := workers s @ ws\<rparr>)"
  "keeps W key s (s\<lparr>timers := timers s @ ts\<rparr>)"
  by (auto simp: keeps_def QInv_def nulls_def)

lemma answer_eq:
  "(Send w m = answer uuid i v) = (uuid = Worker w \<and> m = Return i v)"
  "(Ipc_emit j x = answer uuid i v) = (uuid = Master \<and> j = i \<and> x = v)"
  "Kill w \<noteq> answer uuid i v" "Emit e \<noteq> answer uuid i v"
  by (auto simp: answer_def split: requester.splits)

lemma keeps_send': "QInv s \<longrightarrow> no_return m \<Longrightarrow> keeps W key s (send w m s)"
  by (cases m) (auto simp: keeps_def QInv_def nulls_def send_def emit_def answer_eq)

lemma keeps_send: "no_return m \<Longrightarrow> keeps W key s (send w m s)"
  by (rule keeps_send') simp

lemma keeps_timers:
  "FetchTimer key \<in> set (timers s) \<longrightarrow> FetchTimer key \<in> set ts \<Longrightarrow> keeps W key s (s\<lparr>timers := ts\<rparr>)"
  by (auto simp: keeps_def QInv_def nulls_def)

lemma keeps_workers:
  "set (workers s) - W \<subseteq> set ws \<Longrightarrow> keeps W key s (s\<lparr>workers := ws\<rparr>)"
  by (auto simp: keeps_def QInv_def nulls_def)

lemma keeps_out:
  "length (filter (\<lambda>e. e = answer (snd key) (fst key) None) ou)
     = length (filter (\<lambda>e. e = answer (snd key) (fst key) None) (out s))
   \<Longrightarrow> keeps W key s (s\<lparr>out := ou\<rparr>)"
  by (auto simp: keeps_def QInv_def nulls_def)

lemma keeps_emit: "keeps W key s (emit (Emit e) s)"
  by (auto simp: keeps_def QInv_def nulls_def emit_def answer_eq)

lemma keeps_kill: "keeps W key s (kill w s)"
  by (auto simp: keeps_def QInv_def nulls_def kill_def emit_def answer_eq)

lemma keeps_fetch_sends:
  "keeps W key s (s\<lparr>out := out s @ map (\<lambda>f. Send w (Fetch (f_op f) (f_id f) (f_UUID f))) fs\<rparr>)"
  by (auto simp: keeps_def QInv_def nulls_def answer_eq filter_empty_conv)

lemma list_all_update:
  "list_all P al \<Longrightarrow> P (k, v) \<Longrightarrow> list_all P (AList.update k v al)"
  by (induction al) auto

lemma list_all_delete: "list_all P al \<Longrightarrow> list_all P (AList.delete k al)"
  by (induction al) auto

lemma keeps_dispatch:
  assumes "QInv s \<longrightarrow> no_return (msg qi)"
  shows "keeps W key s (fst (dispatch qi s))"
proof (cases "QInv s")
  case False
  then show ?thesis
    by (auto simp: keeps_def dispatch_def send_def emit_def Let_def split: option.splits)
next
  case True
  then have m: "no_return (msg qi)"
    using assms by simp
  then have a: "Send w (msg qi) \<noteq> answer (snd key) (fst key) None" for w
    by (cases "msg qi") (simp_all add: answer_eq)
  show ?thesis
    using True m a
    by (auto simp: keeps_def QInv_def nulls_def dispatch_def send_def emit_def Let_def
        list_all_update list_all_delete split: option.splits)
qed

lemma execute_queue:
  assumes "execute first tag qs = (q1, ev)"
  shows "set (queue q1) \<subseteq> set (queue qs)" and "\<And>x p. (x, p) \<in> set ev \<Longrightarrow> x \<in> set (queue q1)"
  using assms
  by (auto simp: execute_def Let_def split: if_splits list.splits dest: in_set_dropD)

lemma item_queue:
  assumes "item x tag qs = (q1, ev)"
  shows "set (queue q1) \<subseteq> insert x (set (queue qs))"
    and "\<And>y p. (y, p) \<in> set ev \<Longrightarrow> y \<in> set (queue q1)"
  using assms
  by (auto simp: item_def execute_def Let_def split: if_splits list.splits)

lemma bulkItems_queue:
  assumes "bulkItems xs tag qs = (q1, ev)"
  shows "set (queue q1) \<subseteq> set xs \<union> set (queue qs)"
    and "\<And>y p. (y, p) \<in> set ev \<Longrightarrow> y \<in> set (queue q1)"
  using assms
  by (auto simp: bulkItems_def execute_def Let_def split: if_splits list.splits)

lemma keeps_q:
  "set (queue q1) \<subseteq> set (queue (q s)) \<Longrightarrow> keeps W key s (s\<lparr>q := q1\<rparr>)"
  by (auto simp: keeps_def QInv_def nulls_def list_all_iff)

lemma keeps_q_new:
  "set (queue q1) \<subseteq> X \<union> set (queue (q s)) \<Longrightarrow> \<forall>x\<in>X. no_return (msg x)
     \<Longrightarrow> keeps W key s (s\<lparr>q := q1\<rparr>)"
  by (auto simp: keeps_def QInv_def nulls_def list_all_iff)

lemma QInv_head:
  "QInv s \<Longrightarrow> x \<in> set (queue (q s)) \<Longrightarrow> no_return (msg x)"
  by (simp add: QInv_def list_all_iff)

lemma keeps_QInv: "keeps W key a b \<Longrightarrow> QInv a \<Longrightarrow> QInv b"
  by (simp add: keeps_def)

lemma keeps_q_execute: "keeps W key st (q_execute first tag st)"
proof (induction first tag st rule: q_execute.induct)
  case (1 first tag st)
  obtain q1 ev where ex: "execute first tag (q st) = (q1, ev)"
    by (cases "execute first tag (q st)")
  note eq = execute_queue [OF ex]
  have k1: "keeps W key st (st\<lparr>q := q1\<rparr>)"
    using eq(1) by (rule keeps_q)
  show ?case
  proof (cases ev)
    case Nil
    then show ?thesis
      using ex k1 by (subst q_execute.simps) simp
  next
    case (Cons p es)
    obtain qi prevItem where p: "p = (qi, prevItem)" by (cases p)
    obtain st2 again where d: "dispatch qi (st\<lparr>q := q1\<rparr>) = (st2, again)"
      by (cases "dispatch qi (st\<lparr>q := q1\<rparr>)")
    have "qi \<in> set (queue q1)"
      using eq(2) [of qi prevItem] Cons p by simp
    then have "QInv (st\<lparr>q := q1\<rparr>) \<longrightarrow> no_return (msg qi)"
      by (auto dest: QInv_head)
    from keeps_dispatch [OF this, of W key] have "keeps W key (st\<lparr>q := q1\<rparr>) st2"
      using d by simp
    with k1 have k2: "keeps W key st st2"
      by (rule keeps_trans)
    show ?thesis
    proof (cases again)
      case True
      have "keeps W key st2 (q_execute False None st2)"
        using "1.IH" [OF ex [symmetric] Cons p [symmetric] d [symmetric] True] .
      with k2 have "keeps W key st (q_execute False None st2)"
        by (rule keeps_trans)
      then show ?thesis
        using ex Cons p d True by (subst q_execute.simps) simp
    next
      case False
      then show ?thesis
        using ex Cons p d k2 by (subst q_execute.simps) simp
    qed
  qed
qed

lemma keeps_handle:
  assumes "QInv st \<longrightarrow> no_return (msg qi)"
  shows "keeps W key st (handle qi st)"
proof -
  obtain st2 again where d: "dispatch qi st = (st2, again)"
    by (cases "dispatch qi st")
  have "keeps W key st st2"
    using keeps_dispatch [OF assms, of W key] d by simp
  then show ?thesis
    using d by (auto simp: handle_def intro: keeps_trans keeps_q_execute)
qed

lemma keeps_q_item:
  assumes "no_return (msg x)"
  shows "keeps W key st (q_item x tag st)"
proof -
  obtain q1 ev where ex: "item x tag (q st) = (q1, ev)"
    by (cases "item x tag (q st)")
  note iq = item_queue [OF ex]
  have k1: "keeps W key st (st\<lparr>q := q1\<rparr>)"
    by (rule keeps_q_new [where X = "{x}"]) (use iq(1) assms in auto)
  show ?thesis
  proof (cases ev)
    case Nil
    then show ?thesis
      using ex k1 by (simp add: q_item_def)
  next
    case (Cons p es)
    obtain qi prevItem where p: "p = (qi, prevItem)" by (cases p)
    have "qi \<in> set (queue q1)"
      using iq(2) [of qi prevItem] Cons p by simp
    then have "QInv (st\<lparr>q := q1\<rparr>) \<longrightarrow> no_return (msg qi)"
      by (auto dest: QInv_head)
    from keeps_handle [OF this, of W key] k1 show ?thesis
      using ex Cons p by (auto simp: q_item_def intro: keeps_trans)
  qed
qed

lemma keeps_q_bulkItems:
  assumes "\<forall>x\<in>set xs. no_return (msg x)"
  shows "keeps W key st (q_bulkItems xs tag st)"
proof -
  obtain q1 ev where ex: "bulkItems xs tag (q st) = (q1, ev)"
    by (cases "bulkItems xs tag (q st)")
  note iq = bulkItems_queue [OF ex]
  have k1: "keeps W key st (st\<lparr>q := q1\<rparr>)"
    by (rule keeps_q_new [where X = "set xs"]) (use iq(1) assms in auto)
  show ?thesis
  proof (cases ev)
    case Nil
    then show ?thesis
      using ex k1 by (simp add: q_bulkItems_def)
  next
    case (Cons p es)
    obtain qi prevItem where p: "p = (qi, prevItem)" by (cases p)
    have "qi \<in> set (queue q1)"
      using iq(2) [of qi prevItem] Cons p by simp
    then have "QInv (st\<lparr>q := q1\<rparr>) \<longrightarrow> no_return (msg qi)"
      by (auto dest: QInv_head)
    from keeps_handle [OF this, of W key] k1 show ?thesis
      using ex Cons p by (auto simp: q_bulkItems_def intro: keeps_trans)
  qed
qed


lemma keeps_c:
  assumes "keeps W key st s"
  shows "keeps W key st (s\<lparr>clusters := a\<rparr>)" "keeps W key st (s\<lparr>services := b\<rparr>)"
    "keeps W key st (s\<lparr>launchingWorkers := c\<rparr>)" "keeps W key st (s\<lparr>softKills := d\<rparr>)"
    "keeps W key st (s\<lparr>connectedClusterGroups := e\<rparr>)"
    "keeps W key st (s\<lparr>clustersSequentialFailedRestarts := f\<rparr>)"
    "keeps W key st (s\<lparr>servicesSequentialFailedRestarts := g\<rparr>)"
    "keeps W key st (s\<lparr>nextWorkerID := h\<rparr>)" "keeps W key st (s\<lparr>servicesToCreate := j\<rparr>)"
    "keeps W key st (emit (Emit ev) s)" "keeps W key st (kill w s)"
    "keeps W key st (q_execute first tag s)"
  by (rule keeps_trans [OF assms], (rule keeps_upd keeps_emit keeps_kill keeps_q_execute))+

lemma keeps_c_timers:
  "keeps W key st s \<Longrightarrow> FetchTimer key \<in> set (timers s) \<longrightarrow> FetchTimer key \<in> set ts
     \<Longrightarrow> keeps W key st (s\<lparr>timers := ts\<rparr>)"
  by (erule keeps_trans) (rule keeps_timers)

lemma keeps_c_workers:
  "keeps W key st s \<Longrightarrow> set (workers s) - W \<subseteq> set ws \<Longrightarrow> keeps W key st (s\<lparr>workers := ws\<rparr>)"
  by (erule keeps_trans) (rule keeps_workers)

lemma keeps_c_out:
  "keeps W key st s \<Longrightarrow>
   length (filter (\<lambda>e. e = answer (snd key) (fst key) None) ou)
     = length (filter (\<lambda>e. e = answer (snd key) (fst key) None) (out s))
   \<Longrightarrow> keeps W key st (s\<lparr>out := ou\<rparr>)"
  by (erule keeps_trans) (rule keeps_out)

lemma timers_simps [simp]:
  "timers (send w m s) = timers s" "timers (emit e s) = timers s" "timers (kill w s) = timers s"
  "out (s\<lparr>timers := ts\<rparr>) = out s"
  by (simp_all add: send_def emit_def kill_def)

lemma no_answer_fetch [simp]:
  "filter (\<lambda>e. e = answer uuid i None) (map (\<lambda>f. Send w (Fetch (g f) (h f) (k f))) fs) = []"
  by (auto simp: filter_empty_conv answer_eq)

lemmas keeps_cs = keeps_c keeps_c_timers keeps_c_workers keeps_c_out

lemma keeps_c_send: "keeps W key st s \<Longrightarrow> no_return m \<Longrightarrow> keeps W key st (send w m s)"
  by (erule keeps_trans) (rule keeps_send)

lemma keeps_c_q_item:
  "keeps W key st s \<Longrightarrow> no_return (msg x) \<Longrightarrow> keeps W key st (q_item x tag s)"
  by (erule keeps_trans) (rule keeps_q_item)

lemma keeps_c_q_bulkItems:
  "keeps W key st s \<Longrightarrow> \<forall>x\<in>set xs. no_return (msg x) \<Longrightarrow> keeps W key st (q_bulkItems xs tag s)"
  by (erule keeps_trans) (rule keeps_q_bulkItems)

lemma shutdownWorker_item: "msg (fst (shutdownWorker w soft cb cm s)) = Shutdown"
  by (simp add: shutdownWorker_def Let_def split: option.splits launching.splits)

lemma restartWorker_item:
  "fst (restartWorker w manual soft s) = Some x \<Longrightarrow> no_return (msg x)"
  by (auto simp: restartWorker_def Let_def fork_def split: option.splits)

lemma keeps_shutdownWorker:
  "keeps W key st s \<Longrightarrow> keeps W key st (snd (shutdownWorker w soft cb cm s))"
  unfolding shutdownWorker_def Let_def
  by (auto split: option.splits launching.splits intro!: keeps_cs)

lemma keeps_restartWorker:
  "keeps W key st s \<Longrightarrow> keeps W key st (snd (restartWorker w manual soft s))"
  unfolding restartWorker_def Let_def fork_def
  by (auto split: option.splits intro!: keeps_cs)

lemma keeps_run_cb: "keeps W key st s \<Longrightarrow> keeps W key st (run_cb cb s)"
  unfolding run_cb_def Let_def
  by (auto split: callback.splits intro!: keeps_cs keeps_c_send)

lemma keeps_run_fn: "keeps W key st s \<Longrightarrow> keeps W key st (run_fn e failed s)"
  unfolding run_fn_def Let_def
  by (auto simp: split_beta shutdownWorker_item split: softkill.splits
      intro!: keeps_run_cb keeps_cs keeps_c_q_item keeps_shutdownWorker)

lemma keeps_run_stored:
  "keeps W key st s \<Longrightarrow>
     keeps W key st (case map_of ks w of Some e \<Rightarrow> run_fn e failed s | None \<Rightarrow> s)"
  by (auto split: option.splits intro: keeps_run_fn)

lemma QInv_waiting:
  "QInv s \<Longrightarrow> map_of (launchingManager s) w = Some (Waiting qi) \<Longrightarrow> no_return (msg qi)"
  by (auto simp: QInv_def list_all_iff dest!: map_of_SomeD)

lemma keeps_lm_delete: "keeps W key s (s\<lparr>launchingManager := AList.delete w (launchingManager s)\<rparr>)"
  by (auto simp: keeps_def QInv_def nulls_def list_all_delete)

lemma keeps_lm_launched:
  "keeps W key s (s\<lparr>launchingManager := AList.update w Launched (launchingManager s)\<rparr>)"
  by (auto simp: keeps_def QInv_def nulls_def list_all_update)

lemma keeps_launched: "keeps W key s (launched w s)"
proof (cases "map_of (launchingManager s) w")
  case None
  then show ?thesis
    by (simp add: launched_def keeps_lm_launched)
next
  case (Some lr)
  show ?thesis
  proof (cases lr)
    case Launched
    then show ?thesis
      using Some by (simp add: launched_def keeps_lm_delete)
  next
    case (Waiting qi)
    let ?a = "send (i_workerID qi) (msg qi) s"
    let ?b = "if concurrency qi ?a then q_execute False None ?a else ?a"
    have e: "launched w s = ?b\<lparr>launchingManager := AList.delete w (launchingManager ?b)\<rparr>"
      using Some Waiting by (simp add: launched_def Let_def)
    have "QInv s \<longrightarrow> no_return (msg qi)"
      using Some Waiting by (auto dest: QInv_waiting)
    then have "keeps W key s ?a"
      by (rule keeps_send')
    then have "keeps W key s ?b"
      by (auto intro: keeps_c)
    then show ?thesis
      unfolding e by (rule keeps_trans) (rule keeps_lm_delete)
  qed
qed

lemma keeps_connected_queue: "keeps W key st s \<Longrightarrow> keeps W key st (connected_queue lw s)"
  unfolding connected_queue_def Let_def
  by (auto split: option.splits launching.splits intro!: keeps_cs)

lemma keeps_connected: "keeps W key s (connected w s)"
  unfolding connected_def Let_def
  by (auto simp: filter_empty_conv answer_eq split: option.splits launching.splits
      intro!: keeps_connected_queue keeps_run_stored keeps_run_fn keeps_cs keeps_c_send)

lemma keeps_codeLoaded: "keeps W key s (codeLoaded w s)"
  unfolding codeLoaded_def by (auto split: option.splits intro!: keeps_cs)

lemma keeps_shutdown_ack: "keeps W key s (shutdown_ack s)"
  unfolding shutdown_ack_def
  by (auto split: list.splits option.splits intro!: keeps_cs keeps_run_fn)

lemma keeps_restart_after_exit:
  "keeps W key st s \<Longrightarrow> keeps W key st (restart_after_exit w s)"
proof -
  assume a: "keeps W key st s"
  obtain x s1 where r: "restartWorker w False False s = (x, s1)"
    by (cases "restartWorker w False False s")
  have k: "keeps W key st s1"
    using keeps_restartWorker [OF a, of w False False] r by simp
  show ?thesis
  proof (cases x)
    case None
    then show ?thesis
      using k r by (simp add: restart_after_exit_def)
  next
    case (Some y)
    then have "no_return (msg y)"
      using restartWorker_item [of w False False s y] r by simp
    then show ?thesis
      using k r Some by (simp add: restart_after_exit_def keeps_c_q_item)
  qed
qed

lemma keeps_limit_reached: "keeps W key st s \<Longrightarrow> keeps W key st (limit_reached w s)"
  unfolding limit_reached_def by (auto split: list.splits intro!: keeps_cs)

lemma keeps_workers_remove: "w \<in> W \<Longrightarrow> keeps W key s (s\<lparr>workers := removeAll w (workers s)\<rparr>)"
  by (auto simp: keeps_def QInv_def nulls_def)

lemma keeps_exit_handler: "w \<in> W \<Longrightarrow> keeps W key s (exit_handler w s)"
  unfolding exit_handler_def Let_def
  by (auto split: option.splits
      intro!: keeps_run_fn keeps_restart_after_exit keeps_limit_reached keeps_cs
        keeps_workers_remove)

lemma keeps_kill_timer: "keeps W key st s \<Longrightarrow> keeps W key st (kill_timer qi s)"
  unfolding kill_timer_def Let_def
  by (auto split: list.splits option.splits intro!: keeps_run_fn keeps_cs)


lemma answer_inj: "(answer u j v = answer uuid i x) = (u = uuid \<and> j = i \<and> v = x)"
  by (auto simp: answer_def split: requester.splits)

lemma keeps_fetches:
  "map_of fs key = map_of (fetches s) key \<Longrightarrow> keeps W key s (s\<lparr>fetches := fs\<rparr>)"
  by (auto simp: keeps_def QInv_def nulls_def)

lemma keeps_c_fetches:
  "keeps W key st s \<Longrightarrow> map_of fs key = map_of (fetches s) key
     \<Longrightarrow> keeps W key st (s\<lparr>fetches := fs\<rparr>)"
  by (erule keeps_trans) (rule keeps_fetches)

lemma keeps_sendReturn:
  "(j, u) \<noteq> key \<or> v \<noteq> None \<Longrightarrow> keeps W key s (sendReturn u j v s)"
  by (cases key)
    (auto simp: keeps_def QInv_def nulls_def sendReturn_def send_def emit_def answer_eq
      split: requester.splits)

lemma keeps_c_sendReturn:
  "keeps W key st s \<Longrightarrow> (j, u) \<noteq> key \<or> v \<noteq> None \<Longrightarrow> keeps W key st (sendReturn u j v s)"
  by (erule keeps_trans) (rule keeps_sendReturn)

lemma keeps_ipcReturn_other: "(j, u) \<noteq> key \<Longrightarrow> keeps W key s (ipcReturn u j v s)"
  unfolding ipcReturn_def Let_def
  by (auto simp: delete_conv' update_conv' split: option.splits
      intro!: keeps_c_fetches keeps_c_sendReturn)

lemma keeps_fetch_timer_other: "key' \<noteq> key \<Longrightarrow> keeps W key st s \<Longrightarrow> keeps W key st (fetch_timer key' s)"
  unfolding fetch_timer_def Let_def
  by (cases key; cases key')
    (auto simp: delete_conv' keeps_def QInv_def nulls_def send_def emit_def answer_eq
      split: option.splits requester.splits)

lemma keeps_fetch_fold:
  "keeps W key st s \<Longrightarrow>
     keeps W key st (fold (\<lambda>k s. case map_of (clusters s) k of
                        None \<Rightarrow> s
                      | Some c \<Rightarrow> if c_workerID c \<in> set (workers s)
                                  then send (c_workerID c) (Fetch opn j u) s else s) ids s)"
proof (induction ids arbitrary: s)
  case Nil
  then show ?case by simp
next
  case (Cons k ids)
  let ?s1 = "case map_of (clusters s) k of
               None \<Rightarrow> s
             | Some c \<Rightarrow> if c_workerID c \<in> set (workers s)
                         then send (c_workerID c) (Fetch opn j u) s else s"
  have "keeps W key st ?s1"
    using Cons.prems by (auto split: option.splits intro!: keeps_c_send)
  from Cons.IH [OF this] show ?case
    by simp
qed

lemma keeps_fetchInfo_other: "(j, u) \<noteq> key \<Longrightarrow> keeps W key s (fetchInfo opn j u s)"
  unfolding fetchInfo_def Let_def
  by (auto simp: update_conv' fetch_sends_frame
      intro!: keeps_cs keeps_fetch_fold keeps_c_fetches)

lemma keeps_fire: "t \<noteq> FetchTimer key \<Longrightarrow> keeps W key s (fire t s)"
  unfolding fire_def Let_def
  by (auto split: timer.splits
      intro!: keeps_kill_timer keeps_fetch_timer_other keeps_cs)

lemma keeps_restartCluster: "keeps W key s (restartCluster cid hard s)"
proof (cases "map_of (clusters s) cid")
  case None
  then show ?thesis by (simp add: restartCluster_def)
next
  case (Some c)
  obtain x s1 where r: "restartWorker (c_workerID c) True (\<not> hard) s = (x, s1)"
    by (cases "restartWorker (c_workerID c) True (\<not> hard) s")
  have k: "keeps W key s s1"
    using keeps_restartWorker [OF keeps_refl, of W key s "c_workerID c" True "\<not> hard"] r by simp
  show ?thesis
  proof (cases x)
    case None
    then show ?thesis
      using k r Some by (simp add: restartCluster_def)
  next
    case (Some y)
    then have "no_return (msg y)"
      using restartWorker_item [of "c_workerID c" True "\<not> hard" s y] r by simp
    then show ?thesis
      using k r Some \<open>map_of (clusters s) cid = Some c\<close>
      by (simp add: restartCluster_def keeps_c_q_item)
  qed
qed

lemma keeps_restartService: "keeps W key s (restartService name hard s)"
proof (cases "map_of (services s) name")
  case None
  then show ?thesis by (simp add: restartService_def)
next
  case (Some c)
  obtain x s1 where r: "restartWorker (s_workerID c) True (\<not> hard) s = (x, s1)"
    by (cases "restartWorker (s_workerID c) True (\<not> hard) s")
  have k: "keeps W key s s1"
    using keeps_restartWorker [OF keeps_refl, of W key s "s_workerID c" True "\<not> hard"] r by simp
  show ?thesis
  proof (cases x)
    case None
    then show ?thesis
      using k r Some by (simp add: restartService_def)
  next
    case (Some y)
    then have "no_return (msg y)"
      using restartWorker_item [of "s_workerID c" True "\<not> hard" s y] r by simp
    then show ?thesis
      using k r Some \<open>map_of (services s) name = Some c\<close>
      by (simp add: restartService_def keeps_c_q_item)
  qed
qed

lemma keeps_shutdownCluster: "keeps W key s (shutdownCluster cid hard s)"
  unfolding shutdownCluster_def
  by (auto simp: split_beta shutdownWorker_item split: option.splits
      intro!: keeps_c_q_item keeps_shutdownWorker)

lemma keeps_shutdownService: "keeps W key s (shutdownService name hard s)"
  unfolding shutdownService_def Let_def
  by (auto simp: split_beta shutdownWorker_item split: option.splits
      intro!: keeps_cs keeps_c_q_item keeps_shutdownWorker)

lemma keeps_fork_services:
  "keeps W key st s \<Longrightarrow> keeps W key st (snd (fork_services xs s))
     \<and> (\<forall>x\<in>set (fst (fork_services xs s)). no_return (msg x))"
proof (induction xs arbitrary: s)
  case Nil
  then show ?case by simp
next
  case (Cons x xs)
  obtain name pth where x: "x = (name, pth)" by (cases x)
  let ?w = "nextWorkerID s"
  let ?s2 = "s\<lparr>workers := workers s @ [?w], nextWorkerID := Suc ?w,
      launchingWorkers := AList.update ?w (LService (ServiceRec name ?w pth)) (launchingWorkers s)\<rparr>"
  have "keeps W key st ?s2"
    using Cons.prems by (auto intro!: keeps_cs)
  from Cons.IH [OF this] show ?case
    by (simp add: x fork_def split_beta Let_def)
qed

lemma keeps_startService: "keeps W key s (startService svcs s)"
  using keeps_fork_services [OF keeps_refl, of W key s svcs]
  by (simp add: startService_def split_beta keeps_c_q_bulkItems)

lemma keeps_fork_clusters: "keeps W key st s \<Longrightarrow> keeps W key st (fork_clusters xs s)"
proof (induction xs arbitrary: s)
  case Nil
  then show ?case by simp
next
  case (Cons i xs)
  let ?w = "nextWorkerID s"
  let ?s2 = "s\<lparr>workers := workers s @ [?w], nextWorkerID := Suc ?w,
      launchingWorkers := AList.update ?w (LCluster (ClusterRec i ?w 0 0)) (launchingWorkers s)\<rparr>"
  have "keeps W key st ?s2"
    using Cons.prems by (auto intro!: keeps_cs)
  from Cons.IH [OF this] show ?case
    by (simp add: fork_def)
qed

lemma keeps_spread_chunks:
  "keeps W key st s \<Longrightarrow> spread_chunks cs cid s = Some s' \<Longrightarrow> keeps W key st s'"
proof (induction cs arbitrary: cid s)
  case Nil
  then show ?case by simp
next
  case (Cons x cs)
  obtain lo hi where x: "x = (lo, hi)" by (cases x)
  obtain c where c: "find_launching cid s = Some c"
    using Cons.prems(2) by (auto simp: x split: option.splits)
  let ?s2 = "s\<lparr>launchingWorkers :=
      AList.update (c_workerID c) (LCluster (ClusterRec cid (c_workerID c) lo hi)) (launchingWorkers s)\<rparr>"
  have "keeps W key st ?s2"
    using Cons.prems(1) by (auto intro!: keeps_cs)
  moreover have "spread_chunks cs (Suc cid) ?s2 = Some s'"
    using Cons.prems(2) c by (simp add: x)
  ultimately show ?case
    by (rule Cons.IH)
qed

lemma connect_items_msgs:
  "connect_items xs s = Some items \<Longrightarrow> \<forall>x\<in>set items. no_return (msg x)"
  by (induction xs arbitrary: items) (auto split: option.splits)

lemma keeps_startCluster: "keeps W key s (startCluster chunks s)"
proof -
  let ?s1 = "fork_clusters [0 ..< clusterCount s] s"
  have 1: "keeps W key s ?s1"
    by (rule keeps_fork_clusters) simp
  have 2: "keeps W key s s3 \<Longrightarrow> keeps W key s
      (case connect_items [0 ..< clusterCount s3] s3 of
         None \<Rightarrow> emit (Emit Uncaught_TypeError) s3
       | Some queueItems \<Rightarrow> q_bulkItems queueItems None s3)" for s3
    by (auto split: option.splits dest: connect_items_msgs intro!: keeps_cs keeps_c_q_bulkItems)
  show ?thesis
  proof (cases chunks)
    case None
    then show ?thesis
      using 2 [OF 1] by (simp add: startCluster_def Let_def)
  next
    case (Some cs)
    show ?thesis
    proof (cases "spread_chunks cs 0 ?s1")
      case None
      then show ?thesis
        using 1 Some by (simp add: startCluster_def Let_def keeps_cs)
    next
      case (Some s3)
      have "keeps W key s s3"
        using 1 Some by (rule keeps_spread_chunks)
      from 2 [OF this] show ?thesis
        using Some \<open>chunks = Some cs\<close> by (simp add: startCluster_def Let_def)
    qed
  qed
qed

lemma keeps_step:
  "\<not> same_fetch key inp \<Longrightarrow> \<not> reply_or_timeout key inp \<Longrightarrow> keeps (exited inp) key s (step inp s)"
  by (cases inp)
    (auto simp: keeps_launched keeps_connected keeps_codeLoaded keeps_shutdown_ack
      keeps_exit_handler keeps_fire keeps_fetchInfo_other keeps_ipcReturn_other
      keeps_restartCluster keeps_restartService keeps_shutdownCluster keeps_shutdownService
      keeps_startService keeps_startCluster)


lemma QInv_cong: "q s' = q s \<Longrightarrow> launchingManager s' = launchingManager s \<Longrightarrow> QInv s' = QInv s"
  by (simp add: QInv_def)

lemma fetch_fold_q:
  "q (fold (\<lambda>k s. case map_of (clusters s) k of
                        None \<Rightarrow> s
                      | Some c \<Rightarrow> if c_workerID c \<in> set (workers s)
                                  then send (c_workerID c) m s else s) ids s) = q s
   \<and> launchingManager (fold (\<lambda>k s. case map_of (clusters s) k of
                        None \<Rightarrow> s
                      | Some c \<Rightarrow> if c_workerID c \<in> set (workers s)
                                  then send (c_workerID c) m s else s) ids s) = launchingManager s"
  by (induction ids arbitrary: s) (simp_all add: send_def emit_def split: option.splits)

lemma QInv_fetchInfo [simp]: "QInv (fetchInfo opn i uuid s) = QInv s"
  by (rule QInv_cong) (simp_all add: fetchInfo_def Let_def fetch_fold_q)

lemma QInv_ipcReturn [simp]: "QInv (ipcReturn uuid i v s) = QInv s"
  by (rule QInv_cong)
    (simp_all add: ipcReturn_def Let_def sendReturn_def send_def emit_def
      split: option.splits requester.splits)

lemma QInv_fetch_timer [simp]: "QInv (fire (FetchTimer key) s) = QInv s"
  by (rule QInv_cong)
    (simp_all add: fire_def fetch_timer_def Let_def send_def emit_def
      split: option.splits requester.splits)

lemma QInv_step: "QInv s \<Longrightarrow> QInv (step inp s)"
proof (cases "(\<exists>opn i uuid. inp = In_fetch opn i uuid) \<or> (\<exists>uuid i v. inp = In_return uuid i v)
    \<or> (\<exists>key. inp = In_timer (FetchTimer key))")
  case True
  assume "QInv s"
  with True show ?thesis by auto
next
  case False
  assume a: "QInv s"
  from False have "\<not> same_fetch ([], Master) inp" "\<not> reply_or_timeout ([], Master) inp"
    by (cases inp; auto)+
  from keeps_step [OF this, of s] a show ?thesis
    by (rule keeps_QInv)
qed

lemma QInv_run: "QInv s \<Longrightarrow> QInv (run ins s)"
  unfolding run_def by (induction ins arbitrary: s) (simp_all add: QInv_step)

lemma QInv_init: "QInv (init mc cc mr together svcs)"
  by (simp add: QInv_def init_def)

lemma run_absent:
  "QInv st \<Longrightarrow> list_all (\<lambda>x. \<not> same_fetch key x) ins \<Longrightarrow> map_of (fetches st) key = None \<Longrightarrow>
     nulls key (run ins st) = nulls key st \<and> map_of (fetches (run ins st)) key = None"
proof (induction ins arbitrary: st)
  case Nil
  then show ?case by (simp add: run_Nil)
next
  case (Cons inp ins)
  from Cons.prems(2) have inp: "\<not> same_fetch key inp" and ins: "list_all (\<lambda>x. \<not> same_fetch key x) ins"
    by simp_all
  have qi: "QInv (step inp st)"
    using Cons.prems(1) by (rule QInv_step)
  have "map_of (fetches (step inp st)) key = None \<and> nulls key (step inp st) = nulls key st"
  proof (cases "reply_or_timeout key inp")
    case True
    then show ?thesis
      using step_entry_absent_nulls [OF Cons.prems(3) True] by simp
  next
    case False
    from keeps_step [OF inp False, of st] show ?thesis
      using Cons.prems(1,3) by (simp add: keeps_def)
  qed
  then show ?case
    using Cons.IH [OF qi ins, of] by (simp add: run_Cons)
qed

lemma run_nulls_le_any:
  "QInv st \<Longrightarrow> list_all (\<lambda>x. \<not> same_fetch key x) ins \<Longrightarrow> nulls key (run ins st) \<le> nulls key st + 1"
proof (induction ins arbitrary: st)
  case Nil
  then show ?case by (simp add: run_Nil)
next
  case (Cons inp ins)
  from Cons.prems(2) have inp: "\<not> same_fetch key inp" and ins: "list_all (\<lambda>x. \<not> same_fetch key x) ins"
    by simp_all
  have qi: "QInv (step inp st)"
    using Cons.prems(1) by (rule QInv_step)
  show ?case
  proof (cases "map_of (fetches st) key = None")
    case True
    then show ?thesis
      using run_absent [OF Cons.prems(1,2) True] by simp
  next
    case False
    have "nulls key (step inp st) = nulls key st
       \<or> (nulls key (step inp st) = nulls key st + 1 \<and> map_of (fetches (step inp st)) key = None)"
    proof (cases "reply_or_timeout key inp")
      case True
      then show ?thesis
        by (rule step_entry_present [OF False])
    next
      case f: False
      from keeps_step [OF inp f, of st] show ?thesis
        using Cons.prems(1) by (simp add: keeps_def)
    qed
    then show ?thesis
    proof
      assume "nulls key (step inp st) = nulls key st"
      then show ?thesis
        using Cons.IH [OF qi ins] by (simp add: run_Cons)
    next
      assume "nulls key (step inp st) = nulls key st + 1 \<and> map_of (fetches (step inp st)) key = None"
      then show ?thesis
        using run_absent [OF qi ins, of] by (simp add: run_Cons)
    qed
  qed
qed

lemma unanswered_not_own: "unanswered key x \<Longrightarrow> \<not> same_fetch key x"
  by (cases x) auto

lemma run_timeout_any:
  "QInv st \<Longrightarrow> list_all (unanswered key) ins \<Longrightarrow> In_timer (FetchTimer key) \<in> set ins \<Longrightarrow>
   map_of (fetches st) key \<noteq> None \<Longrightarrow> FetchTimer key \<in> set (timers st) \<Longrightarrow>
   can_answer (snd key) st \<Longrightarrow>
     nulls key (run ins st) = nulls key st + 1 \<and> map_of (fetches (run ins st)) key = None"
proof (induction ins arbitrary: st)
  case Nil
  then show ?case by simp
next
  case (Cons inp ins)
  obtain i uuid where key: "key = (i, uuid)" by (cases key)
  from Cons.prems(2) have inp: "unanswered key inp" and ins: "list_all (unanswered key) ins"
    by simp_all
  have ins': "list_all (\<lambda>x. \<not> same_fetch key x) ins"
    using ins unanswered_not_own [of key] by (auto simp: list_all_iff)
  have qi: "QInv (step inp st)"
    using Cons.prems(1) by (rule QInv_step)
  show ?case
  proof (cases "inp = In_timer (FetchTimer key)")
    case True
    have a: "map_of (fetches (step inp st)) key = None"
      and n: "nulls key (step inp st) = nulls key st + 1"
      using timeout_step_present [OF Cons.prems(4,5)] by (simp_all add: True)
    from run_absent [OF qi ins' a] show ?thesis
      by (simp add: run_Cons n)
  next
    case False
    then have tm: "In_timer (FetchTimer key) \<in> set ins"
      using Cons.prems(3) by simp
    show ?thesis
    proof (cases "reply_or_timeout key inp")
      case True
      with inp False have r: "inp = In_return uuid i None"
        by (cases inp) (auto simp: key)
      from novalue_step_present [of st i uuid] Cons.prems(4,6)
      consider
        (fin) "map_of (fetches (step inp st)) key = None" "nulls key (step inp st) = nulls key st + 1"
      | (cont) "map_of (fetches (step inp st)) key \<noteq> None" "nulls key (step inp st) = nulls key st"
          "timers (step inp st) = timers st" "can_answer uuid (step inp st)"
        by (auto simp: r key)
      then show ?thesis
      proof cases
        case fin
        from run_absent [OF qi ins' fin(1)] show ?thesis
          by (simp add: run_Cons fin(2))
      next
        case cont
        have "nulls key (run ins (step inp st)) = nulls key (step inp st) + 1
            \<and> map_of (fetches (run ins (step inp st))) key = None"
          using cont Cons.prems(5) by (intro Cons.IH [OF qi ins tm]) (simp_all add: key)
        then show ?thesis
          by (simp add: run_Cons cont(2))
      qed
    next
      case f: False
      note k = keeps_step [OF unanswered_not_own [OF inp] f, of st]
      have 1: "nulls key (step inp st) = nulls key st"
        and 2: "map_of (fetches (step inp st)) key \<noteq> None"
        and 3: "FetchTimer key \<in> set (timers (step inp st))"
        using k Cons.prems(1,4,5) by (simp_all add: keeps_def)
      have 4: "can_answer (snd key) (step inp st)"
      proof (cases uuid)
        case Master
        then show ?thesis by (simp add: key can_answer_def)
      next
        case (Worker w)
        then have "w \<in> set (workers st)" "w \<notin> exited inp"
          using Cons.prems(6) inp by (cases inp; auto simp: key can_answer_def)+
        then have "w \<in> set (workers (step inp st))"
          using k by (auto simp: keeps_def)
        then show ?thesis
          by (simp add: key Worker can_answer_def)
      qed
      have "nulls key (run ins (step inp st)) = nulls key (step inp st) + 1
          \<and> map_of (fetches (run ins (step inp st))) key = None"
        by (rule Cons.IH [OF qi ins tm 2 3 4])
      then show ?thesis
        by (simp add: run_Cons 1)
    qed
  qed
qed





subsection \<open>The stores that hold worker ids\<close>

lemma set_delete_subset: "set (AList.delete k al) \<subseteq> set al"
  by (auto simp: AList.delete_eq)

lemma set_update_subset: "set (AList.update k v al) \<subseteq> insert (k, v) (set al)"
  by (induction al) auto

lemma sk_ids_disjoint: "sk_cluster_ids e \<inter> sk_service_ids e = {}"
proof (cases e)
  case (ShutdownClusterFn w c custom cb)
  then show ?thesis by (cases cb) simp_all
next
  case (ShutdownServiceFn w s custom cb)
  then show ?thesis by (cases cb) simp_all
qed simp_all

text \<open>Monotonicity of the two kinds in every component.\<close>

lemma CK5_mono:
  "set cs' \<subseteq> set cs \<Longrightarrow> set ls' \<subseteq> set ls \<Longrightarrow> set ks' \<subseteq> set ks \<Longrightarrow> CK5 cs' ls' ks' \<subseteq> CK5 cs ls ks"
  unfolding CK5_def by (intro Un_mono image_mono Union_mono) auto

lemma SK5_mono:
  "set ss' \<subseteq> set ss \<Longrightarrow> set ls' \<subseteq> set ls \<Longrightarrow> set ks' \<subseteq> set ks \<Longrightarrow> SK5 ss' ls' ks' \<subseteq> SK5 ss ls ks"
  unfolding SK5_def by (intro Un_mono image_mono Union_mono) auto

lemma CK5_cs_upd: "CK5 (AList.update k v cs) ls ks \<subseteq> insert (c_workerID v) (CK5 cs ls ks)"
  using set_update_subset [of k v cs] by (auto simp: CK5_def)

lemma SK5_ss_upd: "SK5 (AList.update k v ss) ls ks \<subseteq> insert (s_workerID v) (SK5 ss ls ks)"
  using set_update_subset [of k v ss] by (auto simp: SK5_def)

lemma CK5_ls_upd:
  "CK5 cs (AList.update w l ls) ks \<subseteq> (case l of LCluster c \<Rightarrow> {w} | LService s \<Rightarrow> {}) \<union> CK5 cs ls ks"
  using set_update_subset [of w l ls] by (auto simp: CK5_def split: launching.splits)

lemma SK5_ls_upd:
  "SK5 ss (AList.update w l ls) ks \<subseteq> (case l of LCluster c \<Rightarrow> {} | LService s \<Rightarrow> {w}) \<union> SK5 ss ls ks"
  using set_update_subset [of w l ls] by (auto simp: SK5_def split: launching.splits)

lemma CK5_ks_upd: "CK5 cs ls (AList.update w e ks) \<subseteq> sk_cluster_ids e \<union> CK5 cs ls ks"
  using set_update_subset [of w e ks] by (auto simp: CK5_def)

lemma SK5_ks_upd: "SK5 ss ls (AList.update w e ks) \<subseteq> sk_service_ids e \<union> SK5 ss ls ks"
  using set_update_subset [of w e ks] by (auto simp: SK5_def)


lemma launch_ok_delete: "launch_ok ls \<Longrightarrow> launch_ok (AList.delete k ls)"
  using set_delete_subset [of k ls] by (auto simp: launch_ok_def list_all_iff)

lemma launch_ok_update: "launch_ok ls \<Longrightarrow> l_wid l = w \<Longrightarrow> launch_ok (AList.update w l ls)"
  using set_update_subset [of w l ls] by (auto simp: launch_ok_def list_all_iff)

lemma Inv5_step:
  assumes "Inv5 cs ss ls ks n"
    and "CK5 cs' ls' ks' \<subseteq> A \<union> CK5 cs ls ks" and "SK5 ss' ls' ks' \<subseteq> B \<union> SK5 ss ls ks"
    and "A \<inter> B = {}" and "okC A ss ls ks n" and "okS B cs ls ks n" and "launch_ok ls'"
  shows "Inv5 cs' ss' ls' ks' n"
proof -
  let ?C = "CK5 cs ls ks" and ?S = "SK5 ss ls ks"
  have 1: "?C \<inter> ?S = {}" "?C \<union> ?S \<subseteq> {..< n}"
    using assms(1) by (simp_all add: Inv5_def)
  have 2: "A \<subseteq> {..< n}" "A \<inter> ?S = {}" "B \<subseteq> {..< n}" "B \<inter> ?C = {}"
    using assms(5,6) by (simp_all add: okC_def okS_def)
  have "(A \<union> ?C) \<inter> (B \<union> ?S) = {}"
    using 1 2 assms(4) by blast
  then have "CK5 cs' ls' ks' \<inter> SK5 ss' ls' ks' = {}"
    using assms(2,3) by blast
  moreover have "CK5 cs' ls' ks' \<union> SK5 ss' ls' ks' \<subseteq> {..< n}"
    using 1 2 assms(2,3) by blast
  ultimately show ?thesis
    using assms(7) by (simp add: Inv5_def)
qed

lemma okC_empty [simp]: "okC {} ss ls ks n"
  by (simp add: okC_def)

lemma okS_empty [simp]: "okS {} cs ls ks n"
  by (simp add: okS_def)

lemma Inv5_launch_ok: "Inv5 cs ss ls ks n \<Longrightarrow> launch_ok ls"
  by (simp add: Inv5_def)

lemma Inv5_del_cs: "Inv5 cs ss ls ks n \<Longrightarrow> Inv5 (AList.delete k cs) ss ls ks n"
  by (rule Inv5_step [where cs = cs and ss = ss and ls = ls and ks = ks and A = "{}" and B = "{}"])
    (simp_all add: CK5_mono set_delete_subset Inv5_launch_ok)

lemma Inv5_del_ss: "Inv5 cs ss ls ks n \<Longrightarrow> Inv5 cs (AList.delete k ss) ls ks n"
  by (rule Inv5_step [where cs = cs and ss = ss and ls = ls and ks = ks and A = "{}" and B = "{}"])
    (simp_all add: SK5_mono set_delete_subset Inv5_launch_ok)

lemma Inv5_del_ls: "Inv5 cs ss ls ks n \<Longrightarrow> Inv5 cs ss (AList.delete k ls) ks n"
  by (rule Inv5_step [where cs = cs and ss = ss and ls = ls and ks = ks and A = "{}" and B = "{}"])
    (simp_all add: CK5_mono SK5_mono set_delete_subset Inv5_launch_ok launch_ok_delete)

lemma Inv5_del_ks: "Inv5 cs ss ls ks n \<Longrightarrow> Inv5 cs ss ls (AList.delete k ks) n"
  by (rule Inv5_step [where cs = cs and ss = ss and ls = ls and ks = ks and A = "{}" and B = "{}"])
    (simp_all add: CK5_mono SK5_mono set_delete_subset Inv5_launch_ok)

lemma Inv5_Suc: "Inv5 cs ss ls ks n \<Longrightarrow> Inv5 cs ss ls ks (Suc n)"
  by (auto simp: Inv5_def)

lemma Inv5_upd_cs:
  "Inv5 cs ss ls ks n \<Longrightarrow> okC {c_workerID v} ss ls ks n \<Longrightarrow> Inv5 (AList.update k v cs) ss ls ks n"
  using CK5_cs_upd [of k v cs ls ks]
  by (rule_tac Inv5_step [where cs = cs and ss = ss and ls = ls and ks = ks and A = "{c_workerID v}" and B = "{}"])
    (simp_all add: Inv5_launch_ok)

lemma Inv5_upd_ss:
  "Inv5 cs ss ls ks n \<Longrightarrow> okS {s_workerID v} cs ls ks n \<Longrightarrow> Inv5 cs (AList.update k v ss) ls ks n"
  using SK5_ss_upd [of k v ss ls ks]
  by (rule_tac Inv5_step [where cs = cs and ss = ss and ls = ls and ks = ks and A = "{}" and B = "{s_workerID v}"])
    (simp_all add: Inv5_launch_ok)

lemma Inv5_upd_ls_c:
  "Inv5 cs ss ls ks n \<Longrightarrow> okC {w} ss ls ks n \<Longrightarrow> c_workerID c = w
     \<Longrightarrow> Inv5 cs ss (AList.update w (LCluster c) ls) ks n"
  using CK5_ls_upd [of cs w "LCluster c" ls ks] SK5_ls_upd [of ss w "LCluster c" ls ks]
  by (rule_tac Inv5_step [where cs = cs and ss = ss and ls = ls and ks = ks and A = "{w}" and B = "{}"])
    (simp_all add: Inv5_launch_ok launch_ok_update)

lemma Inv5_upd_ls_s:
  "Inv5 cs ss ls ks n \<Longrightarrow> okS {w} cs ls ks n \<Longrightarrow> s_workerID s = w
     \<Longrightarrow> Inv5 cs ss (AList.update w (LService s) ls) ks n"
  using CK5_ls_upd [of cs w "LService s" ls ks] SK5_ls_upd [of ss w "LService s" ls ks]
  by (rule_tac Inv5_step [where cs = cs and ss = ss and ls = ls and ks = ks and A = "{}" and B = "{w}"])
    (simp_all add: Inv5_launch_ok launch_ok_update)

lemma Inv5_upd_ks:
  "Inv5 cs ss ls ks n \<Longrightarrow> okC (sk_cluster_ids e) ss ls ks n \<Longrightarrow> okS (sk_service_ids e) cs ls ks n
     \<Longrightarrow> Inv5 cs ss ls (AList.update k e ks) n"
  using CK5_ks_upd [of cs ls k e ks] SK5_ks_upd [of ss ls k e ks]
  by (rule_tac Inv5_step [where cs = cs and ss = ss and ls = ls and ks = ks and A = "sk_cluster_ids e" and B = "sk_service_ids e"])
    (simp_all add: Inv5_launch_ok sk_ids_disjoint)

lemma okC_mono:
  "okC W ss ls ks n \<Longrightarrow> SK5 ss' ls' ks' \<subseteq> SK5 ss ls ks \<Longrightarrow> n \<le> n' \<Longrightarrow> okC W ss' ls' ks' n'"
  unfolding okC_def by (meson disjoint_iff lessThan_subset_iff subset_eq subset_trans) 

lemma okS_mono:
  "okS W cs ls ks n \<Longrightarrow> CK5 cs' ls' ks' \<subseteq> CK5 cs ls ks \<Longrightarrow> n \<le> n' \<Longrightarrow> okS W cs' ls' ks' n'"
  unfolding okS_def by (meson disjoint_iff lessThan_subset_iff subset_eq subset_trans)

lemma Inv5_fresh:
  "Inv5 cs ss ls ks n
     \<Longrightarrow> Inv5 cs ss ls ks (Suc n) \<and> okC {n} ss ls ks (Suc n) \<and> okS {n} cs ls ks (Suc n)"
  by (auto simp: Inv5_def okC_def okS_def)

lemma Inv5_member:
  "Inv5 cs ss ls ks n \<Longrightarrow> W \<subseteq> CK5 cs ls ks \<Longrightarrow> okC W ss ls ks n"
  "Inv5 cs ss ls ks n \<Longrightarrow> V \<subseteq> SK5 ss ls ks \<Longrightarrow> okS V cs ls ks n"
  by (auto simp: Inv5_def okC_def okS_def)


lemma okC_del:
  "okC W ss ls ks n \<Longrightarrow> okC W (AList.delete k ss) ls ks n"
  "okC W ss ls ks n \<Longrightarrow> okC W ss (AList.delete k' ls) ks n"
  "okC W ss ls ks n \<Longrightarrow> okC W ss ls (AList.delete k' ks) n"
  by (erule okC_mono, simp_all add: SK5_mono set_delete_subset)+

lemma okS_del:
  "okS W cs ls ks n \<Longrightarrow> okS W (AList.delete k cs) ls ks n"
  "okS W cs ls ks n \<Longrightarrow> okS W cs (AList.delete k' ls) ks n"
  "okS W cs ls ks n \<Longrightarrow> okS W cs ls (AList.delete k' ks) n"
  by (erule okS_mono, simp_all add: CK5_mono set_delete_subset)+

lemma okC_upd_ls_c: "okC W ss ls ks n \<Longrightarrow> okC W ss (AList.update w (LCluster c) ls) ks n"
  using SK5_ls_upd [of ss w "LCluster c" ls ks] by (auto elim: okC_mono)

lemma okS_upd_ls_s: "okS W cs ls ks n \<Longrightarrow> okS W cs (AList.update w (LService s) ls) ks n"
  using CK5_ls_upd [of cs w "LService s" ls ks] by (auto elim: okS_mono)

lemma okC_upd_ks:
  "okC W ss ls ks n \<Longrightarrow> W \<inter> sk_service_ids e = {} \<Longrightarrow> okC W ss ls (AList.update k e ks) n"
  using SK5_ks_upd [of ss ls k e ks] unfolding okC_def by blast

lemma okS_upd_ks:
  "okS W cs ls ks n \<Longrightarrow> W \<inter> sk_cluster_ids e = {} \<Longrightarrow> okS W cs ls (AList.update k e ks) n"
  using CK5_ks_upd [of cs ls k e ks] unfolding okS_def by blast

lemma okC_Suc: "okC W ss ls ks n \<Longrightarrow> okC W ss ls ks (Suc n)"
  by (erule okC_mono) simp_all

lemma okS_Suc: "okS W cs ls ks n \<Longrightarrow> okS W cs ls ks (Suc n)"
  by (erule okS_mono) simp_all

lemma find_cluster_Some: "find_cluster w cs = Some c \<Longrightarrow> c_workerID c = w \<and> c \<in> snd ` set cs"
  by (auto simp: find_cluster_def find_Some_iff)

lemma find_service_Some: "find_service w ss = Some s \<Longrightarrow> s_workerID s = w \<and> s \<in> snd ` set ss"
  by (auto simp: find_service_def find_Some_iff)

lemma CK5_find: "find_cluster w cs = Some c \<Longrightarrow> w \<in> CK5 cs ls ks"
  by (drule find_cluster_Some) (auto simp: CK5_def)

lemma SK5_find: "find_service w ss = Some s \<Longrightarrow> w \<in> SK5 ss ls ks"
  by (drule find_service_Some) (auto simp: SK5_def)

lemma CK5_map_of: "map_of cs k = Some c \<Longrightarrow> c_workerID c \<in> CK5 cs ls ks"
  by (drule map_of_SomeD) (force simp: CK5_def)

lemma SK5_map_of: "map_of ss k = Some s \<Longrightarrow> s_workerID s \<in> SK5 ss ls ks"
  by (drule map_of_SomeD) (force simp: SK5_def)

lemma CK5_launching: "map_of ls w = Some (LCluster c) \<Longrightarrow> w \<in> CK5 cs ls ks"
  by (drule map_of_SomeD) (auto simp: CK5_def)

lemma SK5_launching: "map_of ls w = Some (LService s) \<Longrightarrow> w \<in> SK5 ss ls ks"
  by (drule map_of_SomeD) (auto simp: SK5_def)

lemma CK5_softKill: "map_of ks k = Some e \<Longrightarrow> sk_cluster_ids e \<subseteq> CK5 cs ls ks"
  by (drule map_of_SomeD) (force simp: CK5_def)

lemma SK5_softKill: "map_of ks k = Some e \<Longrightarrow> sk_service_ids e \<subseteq> SK5 ss ls ks"
  by (drule map_of_SomeD) (force simp: SK5_def)

lemmas q_execute_fields = framed_fields [OF framed_q_execute]
lemmas q_item_fields = framed_fields [OF framed_q_item]
lemmas q_bulkItems_fields = framed_fields [OF framed_q_bulkItems]
lemmas send_fields = framed_fields [OF framed_send]
lemmas emit_fields = framed_fields [OF framed_emit]
lemmas kill_fields = framed_fields [OF framed_kill]

lemmas queue_fields = q_execute_fields q_item_fields q_bulkItems_fields send_fields emit_fields
  kill_fields

lemma Inv_shutdownWorker:
  assumes "Inv st" and "okCs (cb_cluster_ids cb) st" and "okSs (cb_service_ids cb) st"
  shows "Inv (snd (shutdownWorker w soft cb cm st))"
  using assms unfolding Inv_def okCs_def okSs_def shutdownWorker_def Let_def
  by (auto simp: queue_fields split: option.splits launching.splits
      intro!: Inv5_upd_ks Inv5_del_cs Inv5_del_ss)

lemma okCs_shutdownWorker:
  assumes "okCs W st"
  shows "nextWorkerID (snd (shutdownWorker w soft cb cm st)) = nextWorkerID st"
  unfolding shutdownWorker_def Let_def
  by (auto simp: queue_fields split: option.splits launching.splits)

lemma Inv_restartWorker:
  assumes "Inv st"
  shows "Inv (snd (restartWorker w manual soft st))"
  using assms Inv5_fresh [OF assms [unfolded Inv_def]] unfolding Inv_def restartWorker_def Let_def fork_def
  by (auto simp: queue_fields split: option.splits
      intro!: Inv5_upd_ks Inv5_upd_cs Inv5_upd_ss Inv5_upd_ls_c Inv5_upd_ls_s Inv5_del_cs Inv5_del_ss
        okC_upd_ls_c okS_upd_ls_s okC_upd_ks okS_upd_ks okC_del okS_del)


lemma Inv_queue [simp]:
  "Inv (q_execute f t st) = Inv st" "Inv (q_item x t st) = Inv st"
  "Inv (q_bulkItems xs t st) = Inv st" "Inv (send w m st) = Inv st"
  "Inv (emit e st) = Inv st" "Inv (kill w st) = Inv st"
  by (simp_all add: Inv_def queue_fields)

lemma okCs_queue [simp]:
  "okCs W (q_execute f t st) = okCs W st" "okCs W (q_item x t st) = okCs W st"
  "okCs W (q_bulkItems xs t st) = okCs W st" "okCs W (send w m st) = okCs W st"
  "okCs W (emit e st) = okCs W st" "okCs W (kill w st) = okCs W st"
  by (simp_all add: okCs_def queue_fields)

lemma okSs_queue [simp]:
  "okSs W (q_execute f t st) = okSs W st" "okSs W (q_item x t st) = okSs W st"
  "okSs W (q_bulkItems xs t st) = okSs W st" "okSs W (send w m st) = okSs W st"
  "okSs W (emit e st) = okSs W st" "okSs W (kill w st) = okSs W st"
  by (simp_all add: okSs_def queue_fields)

lemma Inv_upd [simp]:
  "Inv (st\<lparr>launchingManager := a\<rparr>) = Inv st" "Inv (st\<lparr>connectedClusterGroups := b\<rparr>) = Inv st"
  "Inv (st\<lparr>clustersSequentialFailedRestarts := c\<rparr>) = Inv st"
  "Inv (st\<lparr>servicesSequentialFailedRestarts := d\<rparr>) = Inv st"
  "Inv (st\<lparr>fetches := e\<rparr>) = Inv st" "Inv (st\<lparr>q := f\<rparr>) = Inv st"
  "Inv (st\<lparr>workers := g\<rparr>) = Inv st" "Inv (st\<lparr>timers := h\<rparr>) = Inv st"
  "Inv (st\<lparr>out := i\<rparr>) = Inv st" "Inv (st\<lparr>servicesToCreate := j\<rparr>) = Inv st"
  by (simp_all add: Inv_def)

lemma Inv_run_cb:
  assumes "Inv st" and "okCs (cb_cluster_ids cb) st" and "okSs (cb_service_ids cb) st"
  shows "Inv (run_cb cb st)"
  using assms unfolding Inv_def okCs_def okSs_def run_cb_def Let_def
  by (auto simp: queue_fields split: callback.splits
      intro!: Inv5_upd_cs Inv5_upd_ss Inv5_del_cs Inv5_del_ss okC_del okS_del)

lemma Inv_run_fn:
  assumes "Inv st" and "okCs (sk_cluster_ids e) st" and "okSs (sk_service_ids e) st"
  shows "Inv (run_fn e failed st)"
proof (cases e)
  case (ShutdownClusterFn w c custom cb)
  show ?thesis
    unfolding ShutdownClusterFn run_fn_def Let_def softkill.case
    apply (rule Inv_run_cb)
    using assms unfolding ShutdownClusterFn Inv_def okCs_def okSs_def
    by (auto simp: queue_fields intro!: Inv5_del_cs Inv5_del_ls Inv5_del_ks okC_del okS_del)
next
  case (ShutdownServiceFn w s custom cb)
  show ?thesis
    unfolding ShutdownServiceFn run_fn_def Let_def softkill.case
    apply (rule Inv_run_cb)
    using assms unfolding ShutdownServiceFn Inv_def okCs_def okSs_def
    by (auto simp: queue_fields intro!: Inv5_del_ss Inv5_del_ls Inv5_del_ks okC_del okS_del)
next
  case (RestartClusterFn oldW c newW)
  have "Inv (snd (shutdownWorker oldW True (RestartClusterCb c newW) None
      (st\<lparr>softKills := AList.delete newW (softKills st)\<rparr>)))"
    apply (rule Inv_shutdownWorker)
    using assms unfolding RestartClusterFn Inv_def okCs_def okSs_def
    by (auto intro!: Inv5_del_ks okC_del okS_del)
  then show ?thesis
    unfolding RestartClusterFn run_fn_def Let_def softkill.case
    by (simp add: split_beta)
next
  case (RestartServiceFn oldW s newW)
  have "Inv (snd (shutdownWorker oldW True (RestartServiceCb s newW) None
      (st\<lparr>softKills := AList.delete newW (softKills st)\<rparr>)))"
    apply (rule Inv_shutdownWorker)
    using assms unfolding RestartServiceFn Inv_def okCs_def okSs_def
    by (auto intro!: Inv5_del_ks okC_del okS_del)
  then show ?thesis
    unfolding RestartServiceFn run_fn_def Let_def softkill.case
    by (simp add: split_beta)
qed

lemma stored_ok:
  assumes "Inv st" and "map_of (softKills st) w = Some e"
  shows "okCs (sk_cluster_ids e) st" and "okSs (sk_service_ids e) st"
  unfolding okCs_def okSs_def
  by (rule Inv5_member [OF assms(1) [unfolded Inv_def]], rule CK5_softKill [OF assms(2)],
      rule Inv5_member [OF assms(1) [unfolded Inv_def]], rule SK5_softKill [OF assms(2)])

lemma Inv_run_stored:
  assumes "Inv st"
  shows "Inv (case map_of (softKills st) w of Some e \<Rightarrow> run_fn e failed st | None \<Rightarrow> st)"
  using assms by (auto split: option.splits intro!: Inv_run_fn stored_ok)

lemma Inv_launched [simp]: "Inv (launched w st) = Inv st"
  by (simp add: launched_def Let_def split: option.splits launch_state.splits)

lemma Inv_connected_queue [simp]: "Inv (connected_queue lw st) = Inv st"
  by (simp add: connected_queue_def Let_def split: option.splits launching.splits)

lemma Inv_connected:
  assumes "Inv st"
  shows "Inv (connected w st)"
proof (cases "map_of (launchingWorkers st) w")
  case None
  then show ?thesis
    using assms by (simp add: connected_def)
next
  case (Some lw)
  show ?thesis
  proof (cases lw)
    case (LCluster c)
    show ?thesis
      unfolding connected_def Some option.case Let_def LCluster launching.case Inv_upd
        Inv_connected_queue
      apply (rule Inv_run_stored)
      using assms Some [unfolded LCluster] Inv5_member(1) [OF assms [unfolded Inv_def], of "{w}"]
        CK5_launching [of "launchingWorkers st" w c "clusters st" "softKills st"]
      unfolding Inv_def
      by (auto simp: queue_fields intro!: Inv5_del_ls Inv5_upd_cs)
  next
    case (LService sv)
    show ?thesis
      unfolding connected_def Some option.case Let_def LService launching.case Inv_upd
        Inv_connected_queue
      apply (rule Inv_run_stored)
      using assms Some [unfolded LService] Inv5_member(2) [OF assms [unfolded Inv_def], of "{w}"]
        SK5_launching [of "launchingWorkers st" w sv "services st" "softKills st"]
      unfolding Inv_def
      by (auto simp: queue_fields intro!: Inv5_del_ls Inv5_upd_ss)
  qed
qed

lemma Inv_codeLoaded [simp]: "Inv (codeLoaded w st) = Inv st"
  by (simp add: codeLoaded_def split: option.splits)

lemma Inv_shutdown_ack:
  assumes "Inv st"
  shows "Inv (shutdown_ack st)"
  using assms Inv_run_stored [OF assms]
  by (auto simp: shutdown_ack_def split: list.splits option.splits)

lemma Inv_restart_after_exit:
  assumes "Inv st"
  shows "Inv (restart_after_exit w st)"
  using Inv_restartWorker [OF assms, of w False False]
  by (cases "restartWorker w False False st") (auto simp: restart_after_exit_def split: option.splits)

lemma Inv_limit_reached [simp]: "Inv (limit_reached w st) = Inv st"
  by (simp add: limit_reached_def split: list.splits)


lemma Inv_exit_handler:
  assumes "Inv st"
  shows "Inv (exit_handler w st)"
proof -
  let ?st = "st\<lparr>workers := removeAll w (workers st)\<rparr>"
  have 0: "Inv ?st"
    using assms by simp
  have 1: "Inv (q_execute False None ?st)"
    using assms by simp
  show ?thesis
    using Inv_run_stored [OF 1, where w = w and failed = True] 0
    unfolding exit_handler_def Let_def
    by (auto simp: queue_fields split: option.splits intro!: Inv_restart_after_exit)
qed

lemma Inv_kill_timer:
  assumes "Inv st"
  shows "Inv (kill_timer qi st)"
proof -
  have 1: "Inv (kill (i_workerID qi) st)"
    using assms by simp
  show ?thesis
    using Inv_run_stored [OF 1, where w = "i_workerID qi" and failed = True] assms
    unfolding kill_timer_def Let_def
    by (auto split: list.splits)
qed

lemma Inv_sendReturn [simp]: "Inv (sendReturn uuid i v st) = Inv st"
  by (simp add: sendReturn_def split: requester.splits)

lemma Inv_fetch_fold:
  "Inv (fold (\<lambda>k s. case map_of (clusters s) k of
                        None \<Rightarrow> s
                      | Some c \<Rightarrow> if c_workerID c \<in> set (workers s)
                                  then send (c_workerID c) m s else s) ids st) = Inv st"
  by (induction ids arbitrary: st) (simp_all split: option.splits)

lemma Inv_fetchInfo [simp]: "Inv (fetchInfo opn i uuid st) = Inv st"
  by (simp add: fetchInfo_def Let_def Inv_fetch_fold)

lemma Inv_fetch_timer [simp]: "Inv (fetch_timer key st) = Inv st"
  by (simp add: fetch_timer_def Let_def split: option.splits requester.splits)

lemma Inv_ipcReturn [simp]: "Inv (ipcReturn uuid i v st) = Inv st"
  by (simp add: ipcReturn_def Let_def split: option.splits)

lemma Inv_fire:
  assumes "Inv st"
  shows "Inv (fire t st)"
  using assms by (auto simp: fire_def Let_def split: timer.splits intro!: Inv_kill_timer)

lemma Inv_restartCluster:
  assumes "Inv st"
  shows "Inv (restartCluster cid hard st)"
proof (cases "map_of (clusters st) cid")
  case None
  then show ?thesis
    using assms by (simp add: restartCluster_def)
next
  case (Some c)
  show ?thesis
    using assms Some Inv_restartWorker [OF assms, of "c_workerID c" True "\<not> hard"]
    by (cases "restartWorker (c_workerID c) True (\<not> hard) st")
      (auto simp: restartCluster_def split: option.splits)
qed

lemma Inv_restartService:
  assumes "Inv st"
  shows "Inv (restartService name hard st)"
proof (cases "map_of (services st) name")
  case None
  then show ?thesis
    using assms by (simp add: restartService_def)
next
  case (Some s)
  show ?thesis
    using assms Some Inv_restartWorker [OF assms, of "s_workerID s" True "\<not> hard"]
    by (cases "restartWorker (s_workerID s) True (\<not> hard) st")
      (auto simp: restartService_def split: option.splits)
qed

lemma okCs_empty [simp]: "okCs {} st" "okSs {} st"
  by (simp_all add: okCs_def okSs_def)

lemma Inv_shutdownCluster:
  assumes "Inv st"
  shows "Inv (shutdownCluster cid hard st)"
  using assms Inv_shutdownWorker [OF assms, of NoCallback]
  by (auto simp: shutdownCluster_def split_beta split: option.splits)

lemma Inv_shutdownService:
  assumes "Inv st"
  shows "Inv (shutdownService name hard st)"
  using assms Inv_shutdownWorker [OF assms, of NoCallback]
  by (auto simp: shutdownService_def split_beta Let_def split: option.splits)

lemma Inv_fork_services: "Inv st \<Longrightarrow> Inv (snd (fork_services xs st))"
proof (induction xs arbitrary: st)
  case Nil
  then show ?case by simp
next
  case (Cons x xs)
  obtain name pth where x: "x = (name, pth)" by (cases x)
  let ?w = "nextWorkerID st"
  let ?st2 = "st\<lparr>workers := workers st @ [?w], nextWorkerID := Suc ?w,
      launchingWorkers := AList.update ?w (LService (ServiceRec name ?w pth)) (launchingWorkers st)\<rparr>"
  have "Inv ?st2"
    using Cons.prems Inv5_fresh [OF Cons.prems [unfolded Inv_def]] unfolding Inv_def
    by (auto intro!: Inv5_upd_ls_s)
  then have "Inv (snd (fork_services xs ?st2))"
    by (rule Cons.IH)
  then show ?case
    by (simp add: x fork_def split_beta Let_def)
qed

lemma Inv_startService:
  assumes "Inv st"
  shows "Inv (startService svcs st)"
  using Inv_fork_services [OF assms, of svcs] by (simp add: startService_def split_beta)

lemma Inv_fork_clusters: "Inv st \<Longrightarrow> Inv (fork_clusters xs st)"
proof (induction xs arbitrary: st)
  case Nil
  then show ?case by simp
next
  case (Cons i xs)
  let ?w = "nextWorkerID st"
  let ?st2 = "st\<lparr>workers := workers st @ [?w], nextWorkerID := Suc ?w,
      launchingWorkers := AList.update ?w (LCluster (ClusterRec i ?w 0 0)) (launchingWorkers st)\<rparr>"
  have "Inv ?st2"
    using Cons.prems Inv5_fresh [OF Cons.prems [unfolded Inv_def]] unfolding Inv_def
    by (auto intro!: Inv5_upd_ls_c)
  then have "Inv (fork_clusters xs ?st2)"
    by (rule Cons.IH)
  then show ?case
    by (simp add: fork_def)
qed

lemma find_launching_Some:
  assumes "find_launching cid st = Some c" and "launch_ok (launchingWorkers st)"
  shows "(c_workerID c, LCluster c) \<in> set (launchingWorkers st)"
proof -
  have "find (\<lambda>l. case l of LCluster c \<Rightarrow> clusterID c = cid | LService s \<Rightarrow> False)
      (map snd (launchingWorkers st)) = Some (LCluster c)"
    using assms(1) by (auto simp: find_launching_def split: option.splits launching.splits)
  then have "LCluster c \<in> snd ` set (launchingWorkers st)"
    by (auto simp: find_Some_iff)
  then obtain w where w: "(w, LCluster c) \<in> set (launchingWorkers st)"
    by auto
  then have "l_wid (LCluster c) = w"
    using assms(2) by (auto simp: launch_ok_def list_all_iff)
  then show ?thesis
    using w by simp
qed

lemma Inv_spread_chunks: "Inv st \<Longrightarrow> spread_chunks cs cid st = Some st' \<Longrightarrow> Inv st'"
proof (induction cs arbitrary: cid st)
  case Nil
  then show ?case by simp
next
  case (Cons x cs)
  obtain lo hi where x: "x = (lo, hi)" by (cases x)
  obtain c where c: "find_launching cid st = Some c"
    using Cons.prems(2) by (auto simp: x split: option.splits)
  let ?st2 = "st\<lparr>launchingWorkers :=
      AList.update (c_workerID c) (LCluster (ClusterRec cid (c_workerID c) lo hi)) (launchingWorkers st)\<rparr>"
  have inv5: "Inv5 (clusters st) (services st) (launchingWorkers st) (softKills st) (nextWorkerID st)"
    using Cons.prems(1) by (simp add: Inv_def)
  have "(c_workerID c, LCluster c) \<in> set (launchingWorkers st)"
    using find_launching_Some [OF c] Inv5_launch_ok [OF inv5] by simp
  then have "{c_workerID c} \<subseteq> CK5 (clusters st) (launchingWorkers st) (softKills st)"
    by (auto simp: CK5_def)
  then have "okC {c_workerID c} (services st) (launchingWorkers st) (softKills st) (nextWorkerID st)"
    by (rule Inv5_member(1) [OF inv5])
  then have "Inv ?st2"
    using inv5 unfolding Inv_def by (auto intro!: Inv5_upd_ls_c)
  moreover have "spread_chunks cs (Suc cid) ?st2 = Some st'"
    using Cons.prems(2) c by (simp add: x)
  ultimately show ?case
    by (rule Cons.IH)
qed

lemma Inv_startCluster:
  assumes "Inv st"
  shows "Inv (startCluster chunks st)"
proof -
  let ?st1 = "fork_clusters [0 ..< clusterCount st] st"
  have 1: "Inv ?st1"
    using assms by (rule Inv_fork_clusters)
  show ?thesis
  proof (cases chunks)
    case None
    then show ?thesis
      using 1 by (simp add: startCluster_def Let_def split: option.splits)
  next
    case (Some cs)
    show ?thesis
    proof (cases "spread_chunks cs 0 ?st1")
      case None
      then show ?thesis
        using 1 Some by (simp add: startCluster_def Let_def)
    next
      case (Some st3)
      have "Inv st3"
        using 1 Some by (rule Inv_spread_chunks)
      then show ?thesis
        using Some \<open>chunks = Some cs\<close> by (simp add: startCluster_def Let_def split: option.splits)
    qed
  qed
qed

lemma Inv_step: "Inv st \<Longrightarrow> Inv (step i st)"
  by (cases i)
    (simp_all add: Inv_connected Inv_shutdown_ack Inv_exit_handler Inv_fire Inv_restartCluster
      Inv_restartService Inv_shutdownCluster Inv_shutdownService Inv_startService Inv_startCluster)

lemma Inv_run: "Inv st \<Longrightarrow> Inv (run ins st)"
  unfolding run_def by (induction ins arbitrary: st) (simp_all add: Inv_step)

lemma Inv_init: "Inv (init mc cc mr together svcs)"
  by (simp add: Inv_def init_def Inv5_def CK5_def SK5_def launch_ok_def)


lemma lw_run_cb [simp]: "launchingWorkers (run_cb cb st) = launchingWorkers st"
  by (simp add: run_cb_def Let_def queue_fields split: callback.splits)

lemma lw_shutdownWorker [simp]:
  "launchingWorkers (snd (shutdownWorker w soft cb cm st)) = launchingWorkers st"
  by (simp add: shutdownWorker_def Let_def queue_fields split: option.splits launching.splits)

lemma lw_run_fn: "set (launchingWorkers (run_fn e failed st)) \<subseteq> set (launchingWorkers st)"
  using set_delete_subset [of _ "launchingWorkers st"]
  by (cases e) (simp_all add: run_fn_def Let_def queue_fields split_beta)

lemma lw_connected_queue [simp]:
  "launchingWorkers (connected_queue lw st) = launchingWorkers st"
  by (simp add: connected_queue_def Let_def queue_fields split: option.splits launching.splits)

lemma connected_removes: "w \<notin> fst ` set (launchingWorkers (connected w st))"
proof (cases "map_of (launchingWorkers st) w")
  case None
  then have "w \<notin> fst ` set (launchingWorkers st)"
    by (simp add: map_of_eq_None_iff)
  moreover have "connected w st = emit (Emit (ErrorLog ''launchedWorker is undefined'')) st"
    using None by (simp add: connected_def)
  ultimately show ?thesis
    by (simp add: queue_fields)
next
  case (Some lw)
  let ?ls = "AList.delete w (launchingWorkers st)"
  have 1: "w \<notin> fst ` set ?ls"
    by (simp add: delete_notin_dom)
  have 2: "set (launchingWorkers (case map_of (softKills s) w of
      Some e \<Rightarrow> run_fn e False s | None \<Rightarrow> s)) \<subseteq> set (launchingWorkers s)" for s
    using lw_run_fn by (simp split: option.splits)
  have 3: "launchingWorkers (case lw of LCluster c \<Rightarrow> s\<lparr>out := ou\<rparr> | LService sv \<Rightarrow> s)
      = launchingWorkers s" for s ou
    by (cases lw) simp_all
  have "set (launchingWorkers (connected w st)) \<subseteq> set ?ls"
    unfolding connected_def Some option.case Let_def 3 lw_connected_queue
    by (rule subset_trans [OF 2]) (simp add: queue_fields split: launching.splits)
  then show ?thesis
    using 1 by blast
qed

lemma launching_kinds:
  "set (launching_cluster_workerIDs st) = {w. \<exists>c. (w, LCluster c) \<in> set (launchingWorkers st)}"
  "set (launching_service_workerIDs st) = {w. \<exists>s. (w, LService s) \<in> set (launchingWorkers st)}"
proof -
  have c: "is_LCluster l = (\<exists>c. l = LCluster c)" for l
    by (cases l) simp_all
  have s: "(\<not> is_LCluster l) = (\<exists>s. l = LService s)" for l
    by (cases l) simp_all
  show "set (launching_cluster_workerIDs st) = {w. \<exists>c. (w, LCluster c) \<in> set (launchingWorkers st)}"
    by (force simp: launching_cluster_workerIDs_def c)
  show "set (launching_service_workerIDs st) = {w. \<exists>s. (w, LService s) \<in> set (launchingWorkers st)}"
    by (force simp: launching_service_workerIDs_def s)
qed

lemma Inv_kinds:
  assumes "Inv st"
  shows "set (cluster_workerIDs st @ launching_cluster_workerIDs st)
    \<inter> set (service_workerIDs st @ launching_service_workerIDs st) = {}"
proof -
  let ?C = "CK5 (clusters st) (launchingWorkers st) (softKills st)"
  let ?S = "SK5 (services st) (launchingWorkers st) (softKills st)"
  have "set (cluster_workerIDs st @ launching_cluster_workerIDs st) \<subseteq> ?C"
    by (auto simp: launching_kinds cluster_workerIDs_def CK5_def)
  moreover have "set (service_workerIDs st @ launching_service_workerIDs st) \<subseteq> ?S"
    by (auto simp: launching_kinds service_workerIDs_def SK5_def)
  moreover have "?C \<inter> ?S = {}"
    using assms by (simp add: Inv_def Inv5_def)
  ultimately show ?thesis
    by blast
qed




end
